theory Spec2Isabelle
  imports Complex_Main "HOL-Library.Extended_Nat" "HOL-Library.Multiset"
    "HOL-Library.Option_ord" "HOL-Library.Product_Lexorder"
begin

section \<open>Job status inference (scripts/inferStatus.js)\<close>

text \<open>
  The repository holds two variants of \<^verbatim>\<open>scripts/inferStatus.js\<close>. The first scores
  keywords and roles and keeps a rank cursor per job; the second only follows the explicit
  status field. Both are embedded here, function by function.

  Conventions of the embedding:
  \<^item> a JavaScript string is a \<open>string\<close>; the text is taken to be ASCII, so
    \<^verbatim>\<open>toLowerCase\<close> maps \<^verbatim>\<open>A-Z\<close> to \<^verbatim>\<open>a-z\<close> and \<^verbatim>\<open>trim\<close> strips the ASCII white space;
  \<^item> \<^verbatim>\<open>undefined\<close> is \<open>None\<close>; a row is the list of its own properties (field, value)
    in insertion order, every value a string, as \<^verbatim>\<open>readInputFile\<close> builds it;
  \<^item> a JavaScript \<^verbatim>\<open>Map\<close> is an association list in insertion order, a \<^verbatim>\<open>Set\<close> a list
    without duplicates in insertion order;
  \<^item> a rank is a \<open>nat\<close>, \<^verbatim>\<open>Infinity\<close> is \<open>\<infinity>\<close> of \<open>enat\<close>; a score is a \<open>rat\<close> (the
    scores are sums of 1, 2.5 and 3, which binary floating point adds exactly);
  \<^item> \<^verbatim>\<open>Date.parse\<close> and \<^verbatim>\<open>String.prototype.localeCompare\<close> belong to the runtime and
    are parameters of the model (the record \<open>env\<close>);
  \<^item> the value assigned to a row is a \<open>string option\<close>: \<open>Some []\<close> is the empty string of
    an empty row, \<open>None\<close> is \<^verbatim>\<open>undefined\<close>, which the source writes only when the status
    set is empty;
  \<^item> a \<^verbatim>\<open>forEach\<close> is a \<open>fold\<close> of its callback, which is a function of its own here.
\<close>

subsection \<open>Constants\<close>

definition JOB_ID_FIELD :: string where "JOB_ID_FIELD = ''job_number''"
definition STATUS_FIELD :: string where "STATUS_FIELD = ''job_status_at_dwr_create''"
definition DATE_FIELD :: string where "DATE_FIELD = ''date''"
definition DWR_FIELD :: string where "DWR_FIELD = ''dwrNumber''"
definition DEFAULT_FALLBACK_STATUS :: string where "DEFAULT_FALLBACK_STATUS = ''Estimating''"
definition DESCRIPTION_FIELD :: string where "DESCRIPTION_FIELD = ''timeCard.description''"
definition ROLE_FIELD :: string where "ROLE_FIELD = ''labour.name''"

subsection \<open>Strings and regular expressions\<close>

definition lower_char :: "char \<Rightarrow> char" where
  "lower_char c =
     (if 65 \<le> (of_char c :: nat) \<and> (of_char c :: nat) \<le> 90
      then char_of ((of_char c :: nat) + 32) else c)"

definition toLowerCase :: "string \<Rightarrow> string" where
  "toLowerCase s = map lower_char s"

definition is_space :: "char \<Rightarrow> bool" where
  "is_space c = ((of_char c :: nat) \<in> {9, 10, 11, 12, 13, 32})"

definition trim :: "string \<Rightarrow> string" where
  "trim s = rev (dropWhile is_space (rev (dropWhile is_space s)))"

fun join :: "string \<Rightarrow> string list \<Rightarrow> string" where
  "join sep [] = []"
| "join sep [p] = p"
| "join sep (p # q # ps) = p @ sep @ join sep (q # ps)"

text \<open>
  The patterns of the source are alternations of literal text, one of them with an
  optional last character (\<^verbatim>\<open>/paused?/\<close>), some with the \<^verbatim>\<open>i\<close> flag. A pattern is
  the list of its alternatives, each a list of atoms; \<^verbatim>\<open>test\<close> searches the text for a
  place where one alternative matches.
\<close>

datatype atom = Ch char | Opt char

record regex =
  alternatives :: "atom list list"
  ignoreCase :: bool

definition lit :: "string \<Rightarrow> atom list" where
  "lit s = map Ch s"

fun match_here :: "atom list \<Rightarrow> string \<Rightarrow> bool" where
  "match_here [] t = True"
| "match_here (Ch c # as) [] = False"
| "match_here (Ch c # as) (d # ds) = (c = d \<and> match_here as ds)"
| "match_here (Opt c # as) [] = match_here as []"
| "match_here (Opt c # as) (d # ds) = ((c = d \<and> match_here as ds) \<or> match_here as (d # ds))"

fun search :: "atom list \<Rightarrow> string \<Rightarrow> bool" where
  "search p [] = match_here p []"
| "search p (d # ds) = (match_here p (d # ds) \<or> search p ds)"

definition test :: "regex \<Rightarrow> string \<Rightarrow> bool" where
  "test r t =
     (let t' = (if ignoreCase r then toLowerCase t else t)
      in list_ex (\<lambda>p. search p t') (alternatives r))"

text \<open>
  A pattern without flags and a pattern with the \<^verbatim>\<open>i\<close> flag, from their alternatives. The
  alternatives of the source's \<^verbatim>\<open>i\<close> patterns are in lower case, so matching them against
  the lower-cased text ignores case.
\<close>

definition re :: "string list \<Rightarrow> regex" where
  "re alts = \<lparr>alternatives = map lit alts, ignoreCase = False\<rparr>"

definition re_i :: "string list \<Rightarrow> regex" where
  "re_i alts = \<lparr>alternatives = map lit alts, ignoreCase = True\<rparr>"

subsection \<open>Maps, sets and rows\<close>

type_synonym ('k, 'v) jsmap = "('k \<times> 'v) list"

definition map_get :: "('k, 'v) jsmap \<Rightarrow> 'k \<Rightarrow> 'v option" where
  "map_get m k = map_of m k"

definition map_has :: "('k, 'v) jsmap \<Rightarrow> 'k \<Rightarrow> bool" where
  "map_has m k = (map_of m k \<noteq> None)"

fun map_set :: "'k \<Rightarrow> 'v \<Rightarrow> ('k, 'v) jsmap \<Rightarrow> ('k, 'v) jsmap" where
  "map_set k v [] = [(k, v)]"
| "map_set k v (p # ps) = (if fst p = k then (k, v) # ps else p # map_set k v ps)"

type_synonym 'a jsset = "'a list"

definition set_has :: "'a jsset \<Rightarrow> 'a \<Rightarrow> bool" where
  "set_has s x = (x \<in> set s)"

definition set_add :: "'a \<Rightarrow> 'a jsset \<Rightarrow> 'a jsset" where
  "set_add x s = (if x \<in> set s then s else s @ [x])"

definition new_Set :: "'a list \<Rightarrow> 'a jsset" where
  "new_Set xs = fold set_add xs []"

type_synonym row = "(string \<times> string) list"

definition row_get :: "row \<Rightarrow> string \<Rightarrow> string option" where
  "row_get row field = map_of row field"

text \<open>\<^verbatim>\<open>value || ''\<close> for a value that is a string or undefined.\<close>

definition or_empty :: "string option \<Rightarrow> string" where
  "or_empty v = (case v of None \<Rightarrow> [] | Some s \<Rightarrow> s)"

subsection \<open>The tables\<close>

definition STATUS_KEYWORDS :: "(string \<times> regex list) list" where
  "STATUS_KEYWORDS =
   [(''Estimating'',
       [re [''estimate''], re [''proposal''], re [''bid''], re [''pricing''], re [''rfp'']]),
    (''Job Setup'', [re [''setup''], re [''conversion''], re [''onboard''], re [''kickoff'']]),
    (''Ready to Schedule'',
       [re [''ready to schedule''], re [''project conversion''], re [''mobilize'']]),
    (''Scheduled'', [re [''schedule''], re [''scheduled''], re [''booking''], re [''calendar'']]),
    (''On Hold'',
       [re [''hold''],
        \<lparr>alternatives = [lit ''pause'' @ [Opt (CHR ''d'')]], ignoreCase = False\<rparr>]),
    (''Field Work in Progress'',
       [re [''travel''], re [''site''], re [''field''], re [''collect''], re [''survey''],
        re [''scan''], re [''locat''], re [''inspection''], re [''safety'']]),
    (''Ready to Draft'',
       [re [''processing''], re [''register''], re [''ortho''], re [''clean''], re [''qc''],
        re [''convert'']]),
    (''Drafting'',
       [re [''draft''], re [''survbase''], re [''cad''], re [''markup''], re [''dwg''],
        re [''plan'']]),
    (''Ready to Check'',
       [re [''ready to check''], re [''package ready''], re [''awaiting check'']]),
    (''Checking'', [re [''check''], re [''qa''], re [''review'']]),
    (''Final Submission Sent'',
       [re [''submission''], re [''deliver''], re [''sent''], re [''deliverable''],
        re [''package issued'']]),
    (''Ready to Invoice'', [re [''ready to invoice''], re [''billing''], re [''billable'']]),
    (''Invoiced'', [re [''invoic'']]),
    (''Complete'',
       [re [''project complete''], re [''job complete''], re [''closeout''],
        re [''final invoice''], re [''finalized'']])]"

record hint =
  match :: regex
  statuses :: "string list"
  weight :: rat

definition ROLE_STATUS_MAP :: "hint list" where
  "ROLE_STATUS_MAP =
   [\<lparr>match = re_i [''estimating'', ''proposal'', ''bd'', ''business development''],
      statuses = [''Estimating'', ''Job Setup''], weight = 3\<rparr>,
    \<lparr>match = re_i [''administrator'', ''admin''],
      statuses = [''Job Setup'', ''Ready to Schedule''], weight = 5 / 2\<rparr>,
    \<lparr>match = re_i [''survey'', ''field'', ''technician'', ''technologist''],
      statuses = [''Field Work in Progress''], weight = 3\<rparr>,
    \<lparr>match = re_i [''data processing'', ''processing'', ''lidar''],
      statuses = [''Ready to Draft'', ''Drafting''], weight = 3\<rparr>,
    \<lparr>match = re_i [''cad'', ''draft'', ''designer'', ''survbase'', ''markup''],
      statuses = [''Drafting'', ''Ready to Check''], weight = 3\<rparr>,
    \<lparr>match = re_i [''manager'', ''project manager'', ''pm''],
      statuses = [''Checking'', ''Final Submission Sent''], weight = 5 / 2\<rparr>,
    \<lparr>match = re_i [''accounting'', ''billing'', ''finance'', ''ap'', ''ar'', ''invoice''],
      statuses = [''Ready to Invoice'', ''Invoiced''], weight = 3\<rparr>]"

record cap =
  cap_match :: regex
  maxStatus :: string

definition ROLE_MAX_STATUS :: "cap list" where
  "ROLE_MAX_STATUS =
   [\<lparr>cap_match = re_i [''survey'', ''field'', ''technician'', ''technologist''],
      maxStatus = ''Field Work in Progress''\<rparr>,
    \<lparr>cap_match = re_i [''data processing'', ''processing'', ''lidar''],
      maxStatus = ''Drafting''\<rparr>,
    \<lparr>cap_match = re_i [''cad'', ''draft'', ''designer'', ''survbase'', ''markup''],
      maxStatus = ''Drafting''\<rparr>,
    \<lparr>cap_match = re_i [''manager'', ''project manager'', ''pm''],
      maxStatus = ''Final Submission Sent''\<rparr>]"

subsection \<open>Status order model\<close>

definition buildStatusIndex :: "string list \<Rightarrow> (string, nat) jsmap" where
  "buildStatusIndex orderList =
     fold (\<lambda>(status, i) index. map_set status i index)
          (zip orderList [0 ..< length orderList]) []"

definition buildStatusSet :: "string list \<Rightarrow> string jsset" where
  "buildStatusSet orderList =
     (let s = new_Set orderList
      in if \<not> set_has s DEFAULT_FALLBACK_STATUS \<and> length orderList > 0
         then set_add (orderList ! 0) s else s)"

subsection \<open>Signal scorer\<close>

definition isEmptyRow :: "row \<Rightarrow> bool" where
  "isEmptyRow row = list_all (\<lambda>v. v = []) (map snd row)"

definition combineRowText :: "row \<Rightarrow> string" where
  "combineRowText row =
     (let parts = [row_get row STATUS_FIELD, row_get row ROLE_FIELD,
                   row_get row DESCRIPTION_FIELD,
                   (case row_get row ''additionalFields'' of
                      Some s \<Rightarrow> Some s | None \<Rightarrow> Some [])]
      in toLowerCase (join '' ''
           (concat (map (\<lambda>p. case p of None \<Rightarrow> []
                                | Some s \<Rightarrow> if length (trim s) > 0 then [s] else []) parts))))"

text \<open>
  \<^verbatim>\<open>scores.get(status) + n\<close>. The key is present whenever every key of \<open>statusIndex\<close> is a
  member of \<open>statusOrder\<close>, which holds for the index \<^verbatim>\<open>main\<close> builds. Elsewhere JavaScript
  adds to \<^verbatim>\<open>undefined\<close>; that case is outside the embedding and reads as 0 here.
\<close>

definition score_get :: "(string, rat) jsmap \<Rightarrow> string \<Rightarrow> rat" where
  "score_get scores status = (case map_get scores status of Some v \<Rightarrow> v | None \<Rightarrow> 0)"

text \<open>
  The callbacks of the three \<^verbatim>\<open>forEach\<close> loops of \<^verbatim>\<open>scoreStatuses\<close>: one keyword
  table entry, one status of a role hint, one role hint.
\<close>

definition keyword_step ::
  "(string, nat) jsmap \<Rightarrow> string \<Rightarrow> string \<times> regex list \<Rightarrow> (string, rat) jsmap
     \<Rightarrow> (string, rat) jsmap" where
  "keyword_step statusIndex text entry scores =
     (case entry of (st, patterns) \<Rightarrow>
        if \<not> map_has statusIndex st then scores
        else let n = of_nat (length (filter (\<lambda>pattern. test pattern text) patterns))
             in if n > 0 then map_set st (score_get scores st + n) scores else scores)"

definition hint_status_step ::
  "(string, nat) jsmap \<Rightarrow> rat \<Rightarrow> string \<Rightarrow> (string, rat) jsmap \<Rightarrow> (string, rat) jsmap" where
  "hint_status_step statusIndex w st scores =
     (if \<not> map_has statusIndex st then scores
      else map_set st (score_get scores st + w) scores)"

definition hint_step ::
  "(string, nat) jsmap \<Rightarrow> row \<Rightarrow> hint \<Rightarrow> (string, rat) jsmap \<Rightarrow> (string, rat) jsmap" where
  "hint_step statusIndex row h scores =
     (if \<not> test (match h) (or_empty (row_get row ROLE_FIELD)) then scores
      else fold (hint_status_step statusIndex (weight h)) (statuses h) scores)"

definition scoreStatuses :: "row \<Rightarrow> string list \<Rightarrow> (string, nat) jsmap \<Rightarrow> (string, rat) jsmap" where
  "scoreStatuses row statusOrder statusIndex =
     fold (hint_step statusIndex row) ROLE_STATUS_MAP
       (fold (keyword_step statusIndex (combineRowText row)) STATUS_KEYWORDS
          (fold (\<lambda>st scores. map_set st 0 scores) statusOrder []))"

text \<open>The callback of \<^verbatim>\<open>ROLE_MAX_STATUS.forEach\<close> in \<^verbatim>\<open>roleCapIndex\<close>.\<close>

definition cap_step :: "row \<Rightarrow> (string, nat) jsmap \<Rightarrow> cap \<Rightarrow> enat \<Rightarrow> enat" where
  "cap_step row statusIndex c capIdx =
     (if \<not> test (cap_match c) (or_empty (row_get row ROLE_FIELD)) then capIdx
      else case map_get statusIndex (maxStatus c) of
             Some i \<Rightarrow> min capIdx (enat i)
           | None \<Rightarrow> capIdx)"

text \<open>
  \<^verbatim>\<open>roleCapIndex\<close>: the fold computes \<^verbatim>\<open>capIdx\<close>; the last two statements of the source are
  \<^verbatim>\<open>if (capIdx === Infinity) return floorIdx\<close> and
  \<^verbatim>\<open>return Math.max(floorIdx, capIdx)\<close>.
\<close>

definition roleCapIndex :: "row \<Rightarrow> (string, nat) jsmap \<Rightarrow> nat \<Rightarrow> nat" where
  "roleCapIndex row statusIndex floorIdx =
     (case fold (cap_step row statusIndex) ROLE_MAX_STATUS \<infinity> of
        \<infinity> \<Rightarrow> floorIdx
      | enat capIdx \<Rightarrow> max floorIdx capIdx)"

record best =
  idx :: nat
  status :: string
  score :: rat

text \<open>
  One turn of \<^verbatim>\<open>scores.forEach\<close> in \<^verbatim>\<open>pickStatusFromSignals\<close>. A status of \<open>scores\<close>
  that \<open>statusIndex\<close> lacks does not occur for the index \<^verbatim>\<open>main\<close> builds; the embedding
  skips it.
\<close>

definition pick_step ::
  "(string, nat) jsmap \<Rightarrow> nat \<Rightarrow> nat \<Rightarrow> string \<times> rat \<Rightarrow> best option \<Rightarrow> best option" where
  "pick_step statusIndex floorIdx capIdx entry b =
     (case entry of (st, sc) \<Rightarrow>
        (case map_get statusIndex st of
           None \<Rightarrow> b
         | Some i \<Rightarrow>
             if i < floorIdx \<or> i > capIdx then b
             else if sc \<le> 0 then b
             else (case b of
                     None \<Rightarrow> Some \<lparr>idx = i, status = st, score = sc\<rparr>
                   | Some old \<Rightarrow>
                       if sc > score old \<or> (sc = score old \<and> i > idx old)
                       then Some \<lparr>idx = i, status = st, score = sc\<rparr> else b)))"

definition pickStatusFromSignals ::
  "row \<Rightarrow> nat \<Rightarrow> nat \<Rightarrow> string list \<Rightarrow> (string, nat) jsmap \<Rightarrow> nat option" where
  "pickStatusFromSignals row floorIdx capIdx statusOrder statusIndex =
     (let scores = scoreStatuses row statusOrder statusIndex;
          b = fold (pick_step statusIndex floorIdx capIdx) scores None
      in case b of None \<Rightarrow> None | Some x \<Rightarrow> Some (idx x))"

subsection \<open>Progression tracker\<close>

text \<open>
  The state of one job group: \<^verbatim>\<open>current\<close> (a status, or undefined when the status set is
  empty) and \<^verbatim>\<open>currentIdx\<close>. \<open>processRow\<close> is the body of \<^verbatim>\<open>entries.forEach\<close>: it
  returns the new state and the value written to \<^verbatim>\<open>assignments\<close> for the row. Its
  statements are, in the order of the source:
  \<^item> \<open>apply_explicit\<close>: the update of \<^verbatim>\<open>currentIdx\<close> from the explicit status field;
  \<^item> \<open>apply_signal\<close>: the update from \<^verbatim>\<open>pickStatusFromSignals\<close>;
  \<^item> \<open>commit\<close>: \<^verbatim>\<open>current = statusOrder[currentIdx] || current\<close>.
\<close>

type_synonym pstate = "string option \<times> nat"

definition apply_explicit :: "(string, nat) jsmap \<Rightarrow> row \<Rightarrow> nat \<Rightarrow> nat \<Rightarrow> nat" where
  "apply_explicit statusIndex row capIdx currentIdx =
     (case row_get row STATUS_FIELD of
        None \<Rightarrow> currentIdx
      | Some s \<Rightarrow>
          (case map_get statusIndex s of
             Some explicitIdx \<Rightarrow> min (max currentIdx explicitIdx) capIdx
           | None \<Rightarrow> currentIdx))"

definition apply_signal ::
  "string list \<Rightarrow> (string, nat) jsmap \<Rightarrow> row \<Rightarrow> nat \<Rightarrow> nat \<Rightarrow> nat" where
  "apply_signal statusOrder statusIndex row capIdx currentIdx =
     (case pickStatusFromSignals row currentIdx capIdx statusOrder statusIndex of
        Some signalIdx \<Rightarrow> min (max currentIdx signalIdx) capIdx
      | None \<Rightarrow> currentIdx)"

definition commit :: "string list \<Rightarrow> string option \<Rightarrow> nat \<Rightarrow> string option" where
  "commit statusOrder current currentIdx =
     (if currentIdx < length statusOrder \<and> statusOrder ! currentIdx \<noteq> []
      then Some (statusOrder ! currentIdx) else current)"

definition advance ::
  "string list \<Rightarrow> (string, nat) jsmap \<Rightarrow> row \<Rightarrow> nat \<Rightarrow> nat \<Rightarrow> nat" where
  "advance statusOrder statusIndex row capIdx currentIdx =
     apply_signal statusOrder statusIndex row capIdx
       (apply_explicit statusIndex row capIdx currentIdx)"

fun processRow ::
  "string list \<Rightarrow> (string, nat) jsmap \<Rightarrow> row \<Rightarrow> pstate \<Rightarrow> pstate \<times> string option" where
  "processRow statusOrder statusIndex row (current, currentIdx) =
     (if isEmptyRow row then ((current, currentIdx), Some [])
      else
        let currentIdx' = advance statusOrder statusIndex row
                            (roleCapIndex row statusIndex currentIdx) currentIdx;
            current' = commit statusOrder current currentIdx'
        in ((current', currentIdx'), current'))"

type_synonym entry = "row \<times> nat"

type_synonym assignments = "(nat, string option) jsmap"

fun processEntries ::
  "string list \<Rightarrow> (string, nat) jsmap \<Rightarrow> entry list \<Rightarrow> pstate \<Rightarrow> assignments
     \<Rightarrow> pstate \<times> assignments" where
  "processEntries statusOrder statusIndex [] st asg = (st, asg)"
| "processEntries statusOrder statusIndex ((row, index) # es) st asg =
     (case processRow statusOrder statusIndex row st of
        (st', v) \<Rightarrow> processEntries statusOrder statusIndex es st' (map_set index v asg))"

subsection \<open>Row grouping and ordering\<close>

record env =
  Date_parse :: "string \<Rightarrow> int option"
  localeCompare :: "string \<Rightarrow> string \<Rightarrow> int"

text \<open>
  \<^verbatim>\<open>safeDate\<close> returns the time value of the date, or null. \<^verbatim>\<open>Date.parse(undefined)\<close> is
  NaN.
\<close>

definition safeDate :: "env \<Rightarrow> string option \<Rightarrow> int option" where
  "safeDate e v = (case v of None \<Rightarrow> None | Some s \<Rightarrow> Date_parse e s)"

text \<open>The callback of \<^verbatim>\<open>rows.forEach\<close>, which files a row under its job.\<close>

definition group_step ::
  "entry \<Rightarrow> (string option, entry list) jsmap \<Rightarrow> (string option, entry list) jsmap" where
  "group_step en groups =
     (let jobId = row_get (fst en) JOB_ID_FIELD;
          groups' = (if \<not> map_has groups jobId then map_set jobId [] groups else groups)
      in map_set jobId
           ((case map_get groups' jobId of Some es \<Rightarrow> es | None \<Rightarrow> []) @ [en])
           groups')"

definition groupRows :: "row list \<Rightarrow> (string option, entry list) jsmap" where
  "groupRows rows = fold group_step (zip rows [0 ..< length rows]) []"

definition compareEntries :: "env \<Rightarrow> entry \<Rightarrow> entry \<Rightarrow> int" where
  "compareEntries e a b =
     (let dateA = safeDate e (row_get (fst a) DATE_FIELD);
          dateB = safeDate e (row_get (fst b) DATE_FIELD);
          byDate = (case (dateA, dateB) of
                      (Some ta, Some tb) \<Rightarrow> if ta \<noteq> tb then Some (ta - tb) else None
                    | _ \<Rightarrow> None)
      in case byDate of
           Some d \<Rightarrow> d
         | None \<Rightarrow>
             let dwrA = or_empty (row_get (fst a) DWR_FIELD);
                 dwrB = or_empty (row_get (fst b) DWR_FIELD)
             in if dwrA \<noteq> dwrB then localeCompare e dwrA dwrB
                else int (snd a) - int (snd b))"

text \<open>
  \<^verbatim>\<open>Array.prototype.sort\<close> is stable. For a comparator that is a consistent order the
  sorted array is determined; the embedding computes it by stable insertion. Where the
  comparator is not consistent the language leaves the order to the implementation, and
  the insertion order is one admissible result.
\<close>

fun insert_sorted :: "('a \<Rightarrow> 'a \<Rightarrow> int) \<Rightarrow> 'a \<Rightarrow> 'a list \<Rightarrow> 'a list" where
  "insert_sorted cmp x [] = [x]"
| "insert_sorted cmp x (y # ys) =
     (if cmp x y \<le> 0 then x # y # ys else y # insert_sorted cmp x ys)"

definition sort_js :: "('a \<Rightarrow> 'a \<Rightarrow> int) \<Rightarrow> 'a list \<Rightarrow> 'a list" where
  "sort_js cmp xs = foldr (insert_sorted cmp) xs []"

text \<open>
  The first statements of the callback of \<^verbatim>\<open>groups.forEach\<close>: the fallback status and,
  in the first variant, its rank (\<^verbatim>\<open>statusIndex.get(current) ?? 0\<close>).
\<close>

definition initial_current :: "string jsset \<Rightarrow> string option" where
  "initial_current statusSet =
     (if set_has statusSet DEFAULT_FALLBACK_STATUS
      then Some DEFAULT_FALLBACK_STATUS
      else (case statusSet of [] \<Rightarrow> None | s # _ \<Rightarrow> Some s))"

definition initial_state :: "string jsset \<Rightarrow> (string, nat) jsmap \<Rightarrow> pstate" where
  "initial_state statusSet statusIndex =
     (case initial_current statusSet of
        None \<Rightarrow> (None, 0)
      | Some c \<Rightarrow> (Some c, (case map_get statusIndex c of None \<Rightarrow> 0 | Some i \<Rightarrow> i)))"

text \<open>The callback of \<^verbatim>\<open>groups.forEach\<close>.\<close>

definition processGroup ::
  "env \<Rightarrow> string jsset \<Rightarrow> string list \<Rightarrow> (string, nat) jsmap \<Rightarrow> string option \<times> entry list
     \<Rightarrow> assignments \<Rightarrow> assignments" where
  "processGroup e statusSet statusOrder statusIndex g asg =
     snd (processEntries statusOrder statusIndex
            (sort_js (compareEntries e) (snd g))
            (initial_state statusSet statusIndex) asg)"

definition inferStatuses ::
  "env \<Rightarrow> row list \<Rightarrow> string jsset \<Rightarrow> string list \<Rightarrow> (string, nat) jsmap \<Rightarrow> assignments" where
  "inferStatuses e rows statusSet statusOrder statusIndex =
     fold (processGroup e statusSet statusOrder statusIndex) (groupRows rows) []"

subsection \<open>The second variant: explicit statuses only\<close>

text \<open>
  The callback of \<^verbatim>\<open>entries.forEach\<close> in the second variant: the new \<^verbatim>\<open>current\<close>, which
  is also the value written for the row. \<^verbatim>\<open>statusSet.has(undefined)\<close> is false.
\<close>

definition processRow2 :: "string jsset \<Rightarrow> row \<Rightarrow> string option \<Rightarrow> string option" where
  "processRow2 statusSet row current =
     (case row_get row STATUS_FIELD of
        Some s \<Rightarrow> if set_has statusSet s then Some s else current
      | None \<Rightarrow> current)"

fun processEntries2 ::
  "string jsset \<Rightarrow> entry list \<Rightarrow> string option \<Rightarrow> assignments \<Rightarrow> string option \<times> assignments" where
  "processEntries2 statusSet [] current asg = (current, asg)"
| "processEntries2 statusSet ((row, index) # es) current asg =
     processEntries2 statusSet es (processRow2 statusSet row current)
       (map_set index (processRow2 statusSet row current) asg)"

definition processGroup2 ::
  "env \<Rightarrow> string jsset \<Rightarrow> string option \<times> entry list \<Rightarrow> assignments \<Rightarrow> assignments" where
  "processGroup2 e statusSet g asg =
     snd (processEntries2 statusSet (sort_js (compareEntries e) (snd g))
            (initial_current statusSet) asg)"

definition inferStatuses2 :: "env \<Rightarrow> row list \<Rightarrow> string jsset \<Rightarrow> assignments" where
  "inferStatuses2 e rows statusSet =
     fold (processGroup2 e statusSet) (groupRows rows) []"

subsection \<open>The canonical status order\<close>

text \<open>
  Modelled from the spec: the file \<^verbatim>\<open>data/job_status_order.csv\<close> that \<^verbatim>\<open>loadStatusOrder\<close>
  reads is not part of the sources. The glossary gives the order as Estimating, Job Setup,
  ..., Complete, and the source says of \<^verbatim>\<open>STATUS_KEYWORDS\<close> that its order matches the
  canonical order; the list below is the key order of that table.
\<close>

definition canonical_order :: "string list" where
  "canonical_order =
     [''Estimating'', ''Job Setup'', ''Ready to Schedule'', ''Scheduled'', ''On Hold'',
      ''Field Work in Progress'', ''Ready to Draft'', ''Drafting'', ''Ready to Check'',
      ''Checking'', ''Final Submission Sent'', ''Ready to Invoice'', ''Invoiced'',
      ''Complete'']"

subsection \<open>Auxiliary notions for the proofs\<close>

text \<open>
  A candidate of \<^verbatim>\<open>pickStatusFromSignals\<close>: an entry (status, score) of the score map whose
  rank \<open>i\<close> lies between floor and cap and whose score is positive. \<open>not_above sc i x\<close>
  says that the pair of score \<open>sc\<close> and rank \<open>i\<close> does not beat the record \<open>x\<close>.
\<close>

definition cand :: "(string, nat) jsmap \<Rightarrow> nat \<Rightarrow> nat \<Rightarrow> string \<times> rat \<Rightarrow> nat \<Rightarrow> bool" where
  "cand statusIndex floorIdx capIdx entry i =
     (map_get statusIndex (fst entry) = Some i \<and> floorIdx \<le> i \<and> i \<le> capIdx \<and> snd entry > 0)"

definition not_above :: "rat \<Rightarrow> nat \<Rightarrow> best \<Rightarrow> bool" where
  "not_above sc i x = (sc < score x \<or> (sc = score x \<and> i \<le> idx x))"

text \<open>
  \<open>ranked\<close>: the number is the rank of some status. \<open>rank_le\<close>: both values are statuses
  and the rank of the first is at most the rank of the second. \<open>tracked\<close> is the invariant
  of the state of a group: the cursor is a rank, and \<^verbatim>\<open>current\<close> is a status whose rank is
  at most the cursor.
\<close>

definition ranked :: "(string, nat) jsmap \<Rightarrow> nat \<Rightarrow> bool" where
  "ranked statusIndex i = (\<exists>s. map_get statusIndex s = Some i)"

definition rank_le :: "(string, nat) jsmap \<Rightarrow> string option \<Rightarrow> string option \<Rightarrow> bool" where
  "rank_le statusIndex a b =
     (\<exists>sa sb ra rb. a = Some sa \<and> b = Some sb \<and> map_get statusIndex sa = Some ra \<and>
                    map_get statusIndex sb = Some rb \<and> ra \<le> rb)"

definition tracked :: "(string, nat) jsmap \<Rightarrow> pstate \<Rightarrow> bool" where
  "tracked statusIndex st =
     (ranked statusIndex (snd st) \<and>
      (\<exists>c r. fst st = Some c \<and> map_get statusIndex c = Some r \<and> r \<le> snd st))"

text \<open>
  The calls \<^verbatim>\<open>assignments.set(index, value)\<close> that a group makes, in order, and the state
  it ends in; \<open>set_all\<close> replays such a list on an assignment map. \<open>vals\<close> lists the values
  alone, from the rows alone.
\<close>

fun writes ::
  "string list \<Rightarrow> (string, nat) jsmap \<Rightarrow> entry list \<Rightarrow> pstate \<Rightarrow> (nat \<times> string option) list" where
  "writes statusOrder statusIndex [] st = []"
| "writes statusOrder statusIndex (en # es) st =
     (snd en, snd (processRow statusOrder statusIndex (fst en) st))
       # writes statusOrder statusIndex es (fst (processRow statusOrder statusIndex (fst en) st))"

fun final_state ::
  "string list \<Rightarrow> (string, nat) jsmap \<Rightarrow> entry list \<Rightarrow> pstate \<Rightarrow> pstate" where
  "final_state statusOrder statusIndex [] st = st"
| "final_state statusOrder statusIndex (en # es) st =
     final_state statusOrder statusIndex es (fst (processRow statusOrder statusIndex (fst en) st))"

definition set_all :: "(nat \<times> string option) list \<Rightarrow> assignments \<Rightarrow> assignments" where
  "set_all ws asg = fold (\<lambda>w. map_set (fst w) (snd w)) ws asg"

text \<open>All entries, and all writes, of a run: the groups in order, each sorted.\<close>

definition sorted_entries :: "env \<Rightarrow> (string option, entry list) jsmap \<Rightarrow> entry list" where
  "sorted_entries e G = concat (map (\<lambda>g. sort_js (compareEntries e) (snd g)) G)"

definition all_writes ::
  "env \<Rightarrow> string jsset \<Rightarrow> string list \<Rightarrow> (string, nat) jsmap
     \<Rightarrow> (string option, entry list) jsmap \<Rightarrow> (nat \<times> string option) list" where
  "all_writes e statusSet statusOrder statusIndex G =
     concat (map (\<lambda>g. writes statusOrder statusIndex (sort_js (compareEntries e) (snd g))
                          (initial_state statusSet statusIndex)) G)"

text \<open>
  Inputs for the concrete evaluations. \<open>ex_env\<close> is a runtime in which no date parses and
  all strings collate as equal; the rows that use it have neither date nor \<^verbatim>\<open>dwrNumber\<close>,
  so that neither function is consulted for them.
\<close>

definition ex_env :: env where
  "ex_env = \<lparr>Date_parse = (\<lambda>s. None), localeCompare = (\<lambda>a b. 0)\<rparr>"

definition ex_accounting_row :: row where
  "ex_accounting_row =
     [(JOB_ID_FIELD, ''J-100''), (STATUS_FIELD, ''Complete''), (ROLE_FIELD, ''Accounting''),
      (DESCRIPTION_FIELD, ''final invoice sent'')]"

definition ex_survey_row :: row where
  "ex_survey_row =
     [(JOB_ID_FIELD, ''J-100''), (STATUS_FIELD, ''Bogus''), (ROLE_FIELD, ''''),
      (DESCRIPTION_FIELD, ''site survey and field scan today'')]"

definition ex_complete_row :: row where
  "ex_complete_row = [(JOB_ID_FIELD, ''J-100''), (STATUS_FIELD, ''Complete'')]"

definition ex_estimating_row :: row where
  "ex_estimating_row = [(JOB_ID_FIELD, ''J-100''), (STATUS_FIELD, ''Estimating'')]"

definition ex_tie_row :: row where
  "ex_tie_row = [(JOB_ID_FIELD, ''J-100''), (DESCRIPTION_FIELD, ''draft check'')]"

definition ex_field_row :: row where
  "ex_field_row =
     [(JOB_ID_FIELD, ''J-100''), (ROLE_FIELD, ''Field Technician''),
      (DESCRIPTION_FIELD, ''final package issued, project complete'')]"

definition ex_pm_row :: row where
  "ex_pm_row =
     [(JOB_ID_FIELD, ''J-100''), (ROLE_FIELD, ''Project Manager''),
      (DESCRIPTION_FIELD, ''submission sent'')]"

definition ex_empty_row :: row where
  "ex_empty_row = [(JOB_ID_FIELD, ''''), (STATUS_FIELD, ''''), (ROLE_FIELD, '''')]"

text \<open>The writes of a group in the second variant.\<close>

fun writes2 :: "string jsset \<Rightarrow> entry list \<Rightarrow> string option \<Rightarrow> (nat \<times> string option) list" where
  "writes2 statusSet [] current = []"
| "writes2 statusSet (en # es) current =
     (snd en, processRow2 statusSet (fst en) current)
       # writes2 statusSet es (processRow2 statusSet (fst en) current)"

definition all_writes2 ::
  "env \<Rightarrow> string jsset \<Rightarrow> (string option, entry list) jsmap \<Rightarrow> (nat \<times> string option) list" where
  "all_writes2 e statusSet G =
     concat (map (\<lambda>g. writes2 statusSet (sort_js (compareEntries e) (snd g))
                          (initial_current statusSet)) G)"

text \<open>
  The job of a row, and its sort key under a collation key \<open>ck\<close> for \<^verbatim>\<open>dwrNumber\<close>: the
  parsed date, then the collation key.
\<close>

definition job_of :: "row \<Rightarrow> string option" where
  "job_of r = row_get r JOB_ID_FIELD"

definition rowkey :: "env \<Rightarrow> (string \<Rightarrow> 'k) \<Rightarrow> row \<Rightarrow> int option \<times> 'k" where
  "rowkey e ck r = (safeDate e (row_get r DATE_FIELD), ck (or_empty (row_get r DWR_FIELD)))"

fun vals :: "string list \<Rightarrow> (string, nat) jsmap \<Rightarrow> row list \<Rightarrow> pstate \<Rightarrow> string option list" where
  "vals statusOrder statusIndex [] st = []"
| "vals statusOrder statusIndex (r # rs) st =
     snd (processRow statusOrder statusIndex r st)
       # vals statusOrder statusIndex rs (fst (processRow statusOrder statusIndex r st))"

text \<open>\<^verbatim>\<open>groups.get(jobId)\<close>, with the empty list for a job not yet seen.\<close>

definition old_entries :: "(string option, entry list) jsmap \<Rightarrow> string option \<Rightarrow> entry list" where
  "old_entries G k = (case map_of G k of Some es \<Rightarrow> es | None \<Rightarrow> [])"

text \<open>
  The sort keys decide the order of a row list: the rows are pairwise different, and any two
  different rows of the same job either both have a date that parses or both have none,
  are ordered by \<^verbatim>\<open>localeCompare\<close> as the collation key \<open>ck\<close> orders them, and differ in
  their sort key.
\<close>

definition keys_decide :: "env \<Rightarrow> (string \<Rightarrow> 'k::linorder) \<Rightarrow> row list \<Rightarrow> bool" where
  "keys_decide e ck rows =
     (distinct rows \<and>
      (\<forall>r1\<in>set rows. \<forall>r2\<in>set rows.
         r1 \<noteq> r2 \<and> job_of r1 = job_of r2 \<longrightarrow>
           ((safeDate e (row_get r1 DATE_FIELD) = None) =
            (safeDate e (row_get r2 DATE_FIELD) = None)) \<and>
           ((localeCompare e (or_empty (row_get r1 DWR_FIELD))
                             (or_empty (row_get r2 DWR_FIELD)) \<le> 0) =
            (ck (or_empty (row_get r1 DWR_FIELD)) \<le> ck (or_empty (row_get r2 DWR_FIELD)))) \<and>
           rowkey e ck r1 \<noteq> rowkey e ck r2))"

text \<open>
  A runtime that parses two ISO dates to their time values, and two rows of one job dated
  with them.
\<close>

definition ex_env_dates :: env where
  "ex_env_dates =
     \<lparr>Date_parse = (\<lambda>s. if s = ''2024-01-05'' then Some 1704412800000
                        else if s = ''2024-01-06'' then Some 1704499200000 else None),
      localeCompare = (\<lambda>a b. 0)\<rparr>"

definition ex_dated_field_row :: row where
  "ex_dated_field_row =
     [(JOB_ID_FIELD, ''J-100''), (DATE_FIELD, ''2024-01-05''), (ROLE_FIELD, ''Field Technician''),
      (DESCRIPTION_FIELD, ''final package issued, project complete'')]"

definition ex_dated_pm_row :: row where
  "ex_dated_pm_row =
     [(JOB_ID_FIELD, ''J-100''), (DATE_FIELD, ''2024-01-06''), (ROLE_FIELD, ''Project Manager''),
      (DESCRIPTION_FIELD, ''submission sent'')]"

section \<open>Properties\<close>

subsection \<open>Maps and the status index\<close>

lemma map_of_map_set: "map_of (map_set k v m) = (map_of m)(k \<mapsto> v)"
  by (induction m) (auto simp: fun_eq_iff)

lemma map_get_map_set: "map_get (map_set k v m) k' = (if k' = k then Some v else map_get m k')"
  by (simp add: map_get_def map_of_map_set)

lemma map_fst_map_set:
  "map fst (map_set k v G) = (if k \<in> fst ` set G then map fst G else map fst G @ [k])"
  by (induction G) auto

lemma keys_map_set: "fst ` set (map_set k v G) = insert k (fst ` set G)"
proof -
  have "set (map fst (map_set k v G)) = insert k (set (map fst G))"
    by (auto simp: map_fst_map_set)
  then show ?thesis by simp
qed

lemma distinct_map_set: "distinct (map fst G) \<Longrightarrow> distinct (map fst (map_set k v G))"
  by (simp add: map_fst_map_set)

lemma buildStatusIndex_snoc:
  "buildStatusIndex (xs @ [x]) = map_set x (length xs) (buildStatusIndex xs)"
  by (simp add: buildStatusIndex_def)

lemma buildStatusIndex_get_snoc:
  "map_get (buildStatusIndex (xs @ [x])) s =
     (if s = x then Some (length xs) else map_get (buildStatusIndex xs) s)"
  by (simp add: buildStatusIndex_snoc map_get_map_set)

lemma buildStatusIndex_Some:
  "map_get (buildStatusIndex xs) s = Some i \<Longrightarrow> i < length xs \<and> xs ! i = s"
proof (induction xs arbitrary: i rule: rev_induct)
  case Nil
  then show ?case by (simp add: buildStatusIndex_def map_get_def)
next
  case (snoc x xs)
  show ?case
  proof (cases "s = x")
    case True
    with snoc.prems show ?thesis by (auto simp: buildStatusIndex_get_snoc nth_append)
  next
    case False
    with snoc.prems have "map_get (buildStatusIndex xs) s = Some i"
      by (simp add: buildStatusIndex_get_snoc)
    from snoc.IH [OF this] show ?thesis by (simp add: nth_append)
  qed
qed

lemma buildStatusIndex_member:
  "s \<in> set xs \<Longrightarrow> \<exists>i. map_get (buildStatusIndex xs) s = Some i"
proof (induction xs rule: rev_induct)
  case Nil
  then show ?case by simp
next
  case (snoc x xs)
  then show ?case by (auto simp: buildStatusIndex_get_snoc)
qed

text \<open>
  The keys of the index \<^verbatim>\<open>main\<close> builds are the statuses of the order, and so are the
  keys of the score map, each once. Hence, for that index, every \<^verbatim>\<open>scores.get\<close> of
  \<^verbatim>\<open>scoreStatuses\<close> and every \<^verbatim>\<open>statusIndex.get\<close> of \<^verbatim>\<open>pickStatusFromSignals\<close> finds
  its key.
\<close>

lemma keys_buildStatusIndex: "fst ` set (buildStatusIndex xs) = set xs"
  by (induction xs rule: rev_induct) (simp_all add: buildStatusIndex_snoc keys_map_set, simp add: buildStatusIndex_def)

lemma map_has_buildStatusIndex: "map_has (buildStatusIndex xs) s = (s \<in> set xs)"
  using keys_buildStatusIndex [of xs] by (simp add: map_has_def map_of_eq_None_iff)

lemma init_scores_keys:
  "fst ` set (fold (\<lambda>st scores. map_set st (0::rat) scores) xs acc) = set xs \<union> fst ` set acc"
  by (induction xs arbitrary: acc) (auto simp: keys_map_set)

lemma init_scores_distinct:
  "distinct (map fst acc) \<Longrightarrow>
   distinct (map fst (fold (\<lambda>st scores. map_set st (0::rat) scores) xs acc))"
  by (induction xs arbitrary: acc) (simp_all add: distinct_map_set)

lemma keyword_step_keys:
  assumes "\<forall>st. map_has statusIndex st \<longrightarrow> st \<in> fst ` set scores"
  shows "fst ` set (keyword_step statusIndex text entry scores) = fst ` set scores"
  using assms by (cases entry) (auto simp: keyword_step_def Let_def keys_map_set)

lemma hint_status_step_keys:
  assumes "\<forall>st. map_has statusIndex st \<longrightarrow> st \<in> fst ` set scores"
  shows "fst ` set (hint_status_step statusIndex w st scores) = fst ` set scores"
  using assms by (auto simp: hint_status_step_def keys_map_set)

lemma fold_keyword_step_keys:
  "\<forall>st. map_has statusIndex st \<longrightarrow> st \<in> fst ` set scores \<Longrightarrow>
   fst ` set (fold (keyword_step statusIndex text) kws scores) = fst ` set scores"
  by (induction kws arbitrary: scores) (simp_all add: keyword_step_keys)

lemma fold_hint_status_step_keys:
  "\<forall>st. map_has statusIndex st \<longrightarrow> st \<in> fst ` set scores \<Longrightarrow>
   fst ` set (fold (hint_status_step statusIndex w) sts scores) = fst ` set scores"
  by (induction sts arbitrary: scores) (simp_all add: hint_status_step_keys)

lemma hint_step_keys:
  "\<forall>st. map_has statusIndex st \<longrightarrow> st \<in> fst ` set scores \<Longrightarrow>
   fst ` set (hint_step statusIndex row h scores) = fst ` set scores"
  by (simp add: hint_step_def fold_hint_status_step_keys)

lemma fold_hint_step_keys:
  "\<forall>st. map_has statusIndex st \<longrightarrow> st \<in> fst ` set scores \<Longrightarrow>
   fst ` set (fold (hint_step statusIndex row) hs scores) = fst ` set scores"
  by (induction hs arbitrary: scores) (simp_all add: hint_step_keys)

lemma scoreStatuses_keys:
  "fst ` set (scoreStatuses row statusOrder (buildStatusIndex statusOrder)) = set statusOrder"
proof -
  let ?idx = "buildStatusIndex statusOrder"
  let ?s0 = "fold (\<lambda>st scores. map_set st (0::rat) scores) statusOrder []"
  let ?s1 = "fold (keyword_step ?idx (combineRowText row)) STATUS_KEYWORDS ?s0"
  have k0: "fst ` set ?s0 = set statusOrder" by (simp add: init_scores_keys)
  then have c0: "\<forall>st. map_has ?idx st \<longrightarrow> st \<in> fst ` set ?s0"
    by (simp add: map_has_buildStatusIndex)
  from fold_keyword_step_keys [OF c0] k0 have k1: "fst ` set ?s1 = set statusOrder" by simp
  then have c1: "\<forall>st. map_has ?idx st \<longrightarrow> st \<in> fst ` set ?s1"
    by (simp add: map_has_buildStatusIndex)
  from fold_hint_step_keys [OF c1] k1 show ?thesis by (simp add: scoreStatuses_def)
qed

lemma keyword_step_distinct:
  "distinct (map fst scores) \<Longrightarrow> distinct (map fst (keyword_step statusIndex text entry scores))"
  by (cases entry) (simp add: keyword_step_def Let_def distinct_map_set)

lemma fold_hint_status_step_distinct:
  "distinct (map fst scores) \<Longrightarrow>
   distinct (map fst (fold (hint_status_step statusIndex w) sts scores))"
  by (induction sts arbitrary: scores) (simp_all add: hint_status_step_def distinct_map_set)

lemma hint_step_distinct:
  "distinct (map fst scores) \<Longrightarrow> distinct (map fst (hint_step statusIndex row h scores))"
  by (simp add: hint_step_def fold_hint_status_step_distinct)

lemma fold_keyword_step_distinct:
  "distinct (map fst scores) \<Longrightarrow>
   distinct (map fst (fold (keyword_step statusIndex t) kws scores))"
  by (induction kws arbitrary: scores) (simp_all add: keyword_step_distinct)

lemma fold_hint_step_distinct:
  "distinct (map fst scores) \<Longrightarrow>
   distinct (map fst (fold (hint_step statusIndex row) hs scores))"
  by (induction hs arbitrary: scores) (simp_all add: hint_step_distinct)

lemma scoreStatuses_distinct:
  "distinct (map fst (scoreStatuses row statusOrder statusIndex))"
proof -
  have "distinct (map fst (fold (\<lambda>st scores. map_set st (0::rat) scores) statusOrder []))"
    by (rule init_scores_distinct) simp
  then show ?thesis
    unfolding scoreStatuses_def
    by (intro fold_hint_step_distinct fold_keyword_step_distinct)
qed

subsection \<open>The role cap\<close>

lemma roleCapIndex_alt:
  "roleCapIndex row statusIndex floorIdx =
     (case fold (cap_step row statusIndex) ROLE_MAX_STATUS \<infinity> of
        \<infinity> \<Rightarrow> floorIdx | enat c \<Rightarrow> max floorIdx c)"
  by (simp add: roleCapIndex_def)

lemma roleCapIndex_ge: "floorIdx \<le> roleCapIndex row statusIndex floorIdx"
  by (simp add: roleCapIndex_alt split: enat.splits)

lemma fold_cap_step_no_match:
  "\<forall>cap\<in>set caps. \<not> test (cap_match cap) (or_empty (row_get row ROLE_FIELD)) \<Longrightarrow>
   fold (cap_step row statusIndex) caps acc = acc"
  by (induction caps arbitrary: acc) (simp_all add: cap_step_def)

lemma roleCapIndex_no_match:
  "\<forall>cap\<in>set ROLE_MAX_STATUS. \<not> test (cap_match cap) (or_empty (row_get row ROLE_FIELD)) \<Longrightarrow>
   roleCapIndex row statusIndex floorIdx = floorIdx"
  by (simp add: roleCapIndex_alt fold_cap_step_no_match)

lemma fold_cap_step_le: "fold (cap_step row statusIndex) caps acc \<le> acc"
proof (induction caps arbitrary: acc)
  case Nil
  show ?case by simp
next
  case (Cons a caps)
  have "cap_step row statusIndex a acc \<le> acc"
    by (simp add: cap_step_def split: option.splits)
  with Cons.IH [of "cap_step row statusIndex a acc"] show ?case by simp
qed

lemma fold_cap_step_bound:
  "cap \<in> set caps \<Longrightarrow> test (cap_match cap) (or_empty (row_get row ROLE_FIELD)) \<Longrightarrow>
   map_get statusIndex (maxStatus cap) = Some c \<Longrightarrow>
   fold (cap_step row statusIndex) caps acc \<le> enat c"
proof (induction caps arbitrary: acc)
  case Nil
  then show ?case by simp
next
  case (Cons a caps)
  show ?case
  proof (cases "a = cap")
    case True
    have "fold (cap_step row statusIndex) caps (cap_step row statusIndex a acc)
            \<le> cap_step row statusIndex a acc"
      by (rule fold_cap_step_le)
    also have "cap_step row statusIndex a acc \<le> enat c"
      using True Cons.prems by (simp add: cap_step_def)
    finally show ?thesis by simp
  next
    case False
    with Cons.prems have "cap \<in> set caps" by simp
    from Cons.IH [OF this Cons.prems(2,3)] show ?thesis by simp
  qed
qed

lemma fold_cap_step_cases:
  "fold (cap_step row statusIndex) caps acc = acc \<or>
   (\<exists>cap\<in>set caps. test (cap_match cap) (or_empty (row_get row ROLE_FIELD)) \<and>
      (\<exists>c. map_get statusIndex (maxStatus cap) = Some c \<and>
           fold (cap_step row statusIndex) caps acc = enat c))"
proof (induction caps arbitrary: acc)
  case Nil
  show ?case by simp
next
  case (Cons a caps)
  let ?acc' = "cap_step row statusIndex a acc"
  from Cons.IH [of ?acc'] show ?case
  proof
    assume eq: "fold (cap_step row statusIndex) caps ?acc' = ?acc'"
    show ?thesis
    proof (cases "?acc' = acc")
      case True
      with eq show ?thesis by simp
    next
      case False
      then obtain c where "test (cap_match a) (or_empty (row_get row ROLE_FIELD))"
        "map_get statusIndex (maxStatus a) = Some c" "?acc' = min acc (enat c)"
        by (auto simp: cap_step_def split: option.splits if_splits)
      moreover from this False have "?acc' = enat c" by (simp add: min_def split: if_splits)
      ultimately show ?thesis using eq by auto
    qed
  next
    assume "\<exists>cap\<in>set caps. test (cap_match cap) (or_empty (row_get row ROLE_FIELD)) \<and>
      (\<exists>c. map_get statusIndex (maxStatus cap) = Some c \<and>
           fold (cap_step row statusIndex) caps ?acc' = enat c)"
    then show ?thesis by auto
  qed
qed

subsection \<open>The signal pick\<close>

lemma not_above_trans:
  "not_above sc i y \<Longrightarrow> not_above (score y) (idx y) x \<Longrightarrow> not_above sc i x"
  by (auto simp: not_above_def)

lemma pick_step_origin:
  "pick_step statusIndex fl cp entry b = Some x \<Longrightarrow>
   b = Some x \<or> (fst entry = status x \<and> snd entry = score x \<and> cand statusIndex fl cp entry (idx x))"
  by (cases entry; cases b)
     (auto simp: pick_step_def cand_def split: option.splits if_splits)

lemma pick_step_keeps:
  "b = Some y \<Longrightarrow> \<exists>x. pick_step statusIndex fl cp entry b = Some x \<and> not_above (score y) (idx y) x"
  by (cases entry) (auto simp: pick_step_def not_above_def split: option.splits)

lemma pick_step_cand:
  "cand statusIndex fl cp entry i \<Longrightarrow>
   \<exists>x. pick_step statusIndex fl cp entry b = Some x \<and> not_above (snd entry) i x"
  by (cases entry; cases b) (auto simp: pick_step_def not_above_def cand_def)

lemma pick_step_None:
  assumes "\<not> (\<exists>i. cand statusIndex fl cp entry i)"
  shows "pick_step statusIndex fl cp entry b = b"
proof (cases entry)
  case (Pair st sc)
  show ?thesis
  proof (cases "map_get statusIndex st")
    case None
    with Pair show ?thesis by (simp add: pick_step_def)
  next
    case (Some i)
    from assms have "\<not> cand statusIndex fl cp entry i" by blast
    with Pair Some have "i < fl \<or> cp < i \<or> sc \<le> 0"
      by (auto simp: cand_def)
    with Pair Some show ?thesis by (auto simp: pick_step_def)
  qed
qed

lemma fold_pick_None:
  "(fold (pick_step statusIndex fl cp) xs b = None) =
     (b = None \<and> (\<forall>entry\<in>set xs. \<not> (\<exists>i. cand statusIndex fl cp entry i)))"
proof (induction xs arbitrary: b)
  case Nil
  show ?case by simp
next
  case (Cons a xs)
  show ?case
  proof (cases "\<exists>i. cand statusIndex fl cp a i")
    case True
    then obtain i where "cand statusIndex fl cp a i" ..
    from pick_step_cand [OF this, of b] show ?thesis
      using Cons.IH True by auto
  next
    case False
    then show ?thesis using Cons.IH by (simp add: pick_step_None)
  qed
qed

lemma fold_pick_Some:
  "fold (pick_step statusIndex fl cp) xs b = Some x \<Longrightarrow>
   (b = Some x \<or> (\<exists>entry\<in>set xs. fst entry = status x \<and> snd entry = score x \<and>
                      cand statusIndex fl cp entry (idx x))) \<and>
   (\<forall>entry\<in>set xs. \<forall>i. cand statusIndex fl cp entry i \<longrightarrow> not_above (snd entry) i x) \<and>
   (\<forall>y. b = Some y \<longrightarrow> not_above (score y) (idx y) x)"
proof (induction xs arbitrary: b)
  case Nil
  then show ?case by (simp add: not_above_def)
next
  case (Cons a xs)
  let ?b' = "pick_step statusIndex fl cp a b"
  from Cons.prems have run: "fold (pick_step statusIndex fl cp) xs ?b' = Some x" by simp
  note ih = Cons.IH [OF run]
  have origin: "b = Some x \<or> (\<exists>entry\<in>set (a # xs). fst entry = status x \<and> snd entry = score x \<and>
                      cand statusIndex fl cp entry (idx x))"
  proof -
    from ih have "?b' = Some x \<or> (\<exists>entry\<in>set xs. fst entry = status x \<and> snd entry = score x \<and>
                      cand statusIndex fl cp entry (idx x))" by blast
    then show ?thesis
    proof
      assume "?b' = Some x"
      from pick_step_origin [OF this] show ?thesis by auto
    next
      assume "\<exists>entry\<in>set xs. fst entry = status x \<and> snd entry = score x \<and>
                      cand statusIndex fl cp entry (idx x)"
      then show ?thesis by auto
    qed
  qed
  have here: "\<forall>i. cand statusIndex fl cp a i \<longrightarrow> not_above (snd a) i x"
  proof (intro allI impI)
    fix i assume "cand statusIndex fl cp a i"
    from pick_step_cand [OF this, of b] obtain y where
      y: "?b' = Some y" "not_above (snd a) i y" by blast
    with ih have "not_above (score y) (idx y) x" by blast
    with y(2) show "not_above (snd a) i x" by (rule not_above_trans)
  qed
  have start: "\<forall>y. b = Some y \<longrightarrow> not_above (score y) (idx y) x"
  proof (intro allI impI)
    fix y assume "b = Some y"
    from pick_step_keeps [OF this, of statusIndex fl cp a] obtain z where
      z: "?b' = Some z" "not_above (score y) (idx y) z" by blast
    with ih have "not_above (score z) (idx z) x" by blast
    with z(2) show "not_above (score y) (idx y) x" by (rule not_above_trans)
  qed
  from ih have "\<forall>entry\<in>set xs. \<forall>i. cand statusIndex fl cp entry i \<longrightarrow> not_above (snd entry) i x"
    by blast
  with origin here start show ?case by simp
qed

lemma pick_Some_range:
  "pickStatusFromSignals row fl cp statusOrder statusIndex = Some g \<Longrightarrow>
   fl \<le> g \<and> g \<le> cp \<and> (\<exists>s. map_get statusIndex s = Some g)"
proof -
  assume a: "pickStatusFromSignals row fl cp statusOrder statusIndex = Some g"
  then obtain x where x: "fold (pick_step statusIndex fl cp)
      (scoreStatuses row statusOrder statusIndex) None = Some x" and g: "g = idx x"
    by (auto simp: pickStatusFromSignals_def Let_def split: option.splits)
  from fold_pick_Some [OF x] obtain entry where "cand statusIndex fl cp entry (idx x)"
    by auto
  with g show ?thesis by (auto simp: cand_def)
qed

subsection \<open>One row\<close>

lemma roleCapIndex_cases:
  "roleCapIndex row statusIndex f = f \<or>
   (\<exists>cap\<in>set ROLE_MAX_STATUS. test (cap_match cap) (or_empty (row_get row ROLE_FIELD)) \<and>
      (\<exists>c. map_get statusIndex (maxStatus cap) = Some c \<and>
           roleCapIndex row statusIndex f = max f c))"
  using fold_cap_step_cases [of row statusIndex ROLE_MAX_STATUS \<infinity>]
  by (auto simp: roleCapIndex_alt)

lemma roleCapIndex_ranked:
  "roleCapIndex row statusIndex f = f \<or> ranked statusIndex (roleCapIndex row statusIndex f)"
  using roleCapIndex_cases [of row statusIndex f]
  by (auto simp: ranked_def max_def split: if_splits)

lemma roleCapIndex_respects:
  assumes "cap \<in> set ROLE_MAX_STATUS"
    and "test (cap_match cap) (or_empty (row_get row ROLE_FIELD))"
    and "map_get statusIndex (maxStatus cap) = Some c"
  shows "roleCapIndex row statusIndex f \<le> max f c"
proof -
  from fold_cap_step_bound [OF assms, of \<infinity>]
  obtain c' where "fold (cap_step row statusIndex) ROLE_MAX_STATUS \<infinity> = enat c'" "c' \<le> c"
    by (cases "fold (cap_step row statusIndex) ROLE_MAX_STATUS \<infinity>") auto
  then show ?thesis by (simp add: roleCapIndex_alt)
qed

lemma clamp_step:
  fixes lo x cp base :: nat
  assumes "lo \<le> cp" and "cp = base \<or> ranked statusIndex cp"
    and "lo = base \<or> ranked statusIndex lo" and "ranked statusIndex x"
  shows "lo \<le> min (max lo x) cp" and "min (max lo x) cp \<le> cp"
    and "min (max lo x) cp = base \<or> ranked statusIndex (min (max lo x) cp)"
proof -
  show "lo \<le> min (max lo x) cp" using assms(1) by simp
  show "min (max lo x) cp \<le> cp" by simp
  have "min (max lo x) cp = lo \<or> min (max lo x) cp = x \<or> min (max lo x) cp = cp"
    by (simp add: min_def max_def)
  then show "min (max lo x) cp = base \<or> ranked statusIndex (min (max lo x) cp)"
    using assms(2,3,4) by metis
qed

lemma apply_explicit_props:
  assumes "ci \<le> cp" and "cp = base \<or> ranked statusIndex cp"
    and "ci = base \<or> ranked statusIndex ci"
  shows "ci \<le> apply_explicit statusIndex row cp ci \<and>
         apply_explicit statusIndex row cp ci \<le> cp \<and>
         (apply_explicit statusIndex row cp ci = base \<or>
          ranked statusIndex (apply_explicit statusIndex row cp ci))"
proof (cases "\<exists>s e. row_get row STATUS_FIELD = Some s \<and> map_get statusIndex s = Some e")
  case True
  then obtain s e where se: "row_get row STATUS_FIELD = Some s" "map_get statusIndex s = Some e"
    by blast
  then have "ranked statusIndex e" by (auto simp: ranked_def)
  from clamp_step [OF assms this] se show ?thesis by (simp add: apply_explicit_def)
next
  case False
  then have "apply_explicit statusIndex row cp ci = ci"
    by (auto simp: apply_explicit_def split: option.splits)
  with assms show ?thesis by simp
qed

lemma apply_signal_props:
  assumes "ci \<le> cp" and "cp = base \<or> ranked statusIndex cp"
    and "ci = base \<or> ranked statusIndex ci"
  shows "ci \<le> apply_signal statusOrder statusIndex row cp ci \<and>
         apply_signal statusOrder statusIndex row cp ci \<le> cp \<and>
         (apply_signal statusOrder statusIndex row cp ci = base \<or>
          ranked statusIndex (apply_signal statusOrder statusIndex row cp ci))"
proof (cases "pickStatusFromSignals row ci cp statusOrder statusIndex")
  case None
  with assms show ?thesis by (simp add: apply_signal_def)
next
  case (Some g)
  from pick_Some_range [OF Some] have "ranked statusIndex g" by (auto simp: ranked_def)
  from clamp_step [OF assms this] Some show ?thesis by (simp add: apply_signal_def)
qed

lemma advance_props:
  assumes "ci \<le> cp" and "cp = ci \<or> ranked statusIndex cp"
  shows "ci \<le> advance statusOrder statusIndex row cp ci \<and>
         advance statusOrder statusIndex row cp ci \<le> cp \<and>
         (advance statusOrder statusIndex row cp ci = ci \<or>
          ranked statusIndex (advance statusOrder statusIndex row cp ci))"
proof -
  have triv: "ci = ci \<or> ranked statusIndex ci" by simp
  from apply_explicit_props [OF assms triv, of row]
  have e: "ci \<le> apply_explicit statusIndex row cp ci"
    "apply_explicit statusIndex row cp ci \<le> cp"
    "apply_explicit statusIndex row cp ci = ci \<or>
       ranked statusIndex (apply_explicit statusIndex row cp ci)" by simp_all
  from apply_signal_props [OF e(2) assms(2) e(3), of statusOrder row] e(1)
  show ?thesis by (simp add: advance_def)
qed

lemma processRow_step:
  assumes ne: "\<not> isEmptyRow row"
  shows "\<exists>ci'. processRow statusOrder statusIndex row (cur, ci) =
           ((commit statusOrder cur ci', ci'), commit statusOrder cur ci') \<and>
         ci \<le> ci' \<and> ci' \<le> roleCapIndex row statusIndex ci \<and>
         (ci' = ci \<or> ranked statusIndex ci')"
proof -
  have "ci \<le> roleCapIndex row statusIndex ci" by (rule roleCapIndex_ge)
  from advance_props [OF this roleCapIndex_ranked, of statusOrder row] ne
  show ?thesis by (simp add: Let_def)
qed

lemma processRow_empty:
  "isEmptyRow row \<Longrightarrow> processRow statusOrder statusIndex row st = (st, Some [])"
  by (cases st) simp

lemma rank_le_trans:
  "rank_le statusIndex a b \<Longrightarrow> rank_le statusIndex b c \<Longrightarrow> rank_le statusIndex a c"
  by (auto simp: rank_le_def)

lemma tracked_rank_le_refl: "tracked statusIndex st \<Longrightarrow> rank_le statusIndex (fst st) (fst st)"
  by (auto simp: tracked_def rank_le_def)

lemma ranked_build:
  assumes "ranked (buildStatusIndex statusOrder) i"
  shows "i < length statusOrder"
    and "map_get (buildStatusIndex statusOrder) (statusOrder ! i) = Some i"
proof -
  from assms obtain s where s: "map_get (buildStatusIndex statusOrder) s = Some i"
    by (auto simp: ranked_def)
  from buildStatusIndex_Some [OF s] have i: "i < length statusOrder" "statusOrder ! i = s"
    by simp_all
  show "i < length statusOrder" by fact
  from s i show "map_get (buildStatusIndex statusOrder) (statusOrder ! i) = Some i" by simp
qed

lemma processRow_tracked:
  assumes ne: "\<not> isEmptyRow row"
    and tr: "tracked (buildStatusIndex statusOrder) (cur, ci)"
  shows "\<exists>ci' s r. processRow statusOrder (buildStatusIndex statusOrder) row (cur, ci) =
                      ((Some s, ci'), Some s) \<and>
                    map_get (buildStatusIndex statusOrder) s = Some r \<and> r \<le> ci' \<and>
                    ci \<le> ci' \<and> ci' \<le> roleCapIndex row (buildStatusIndex statusOrder) ci \<and>
                    ranked (buildStatusIndex statusOrder) ci' \<and>
                    rank_le (buildStatusIndex statusOrder) cur (Some s)"
proof -
  let ?idx = "buildStatusIndex statusOrder"
  from tr obtain c rc where cur: "cur = Some c" and rc: "map_get ?idx c = Some rc" "rc \<le> ci"
    and rk: "ranked ?idx ci" by (auto simp: tracked_def)
  from processRow_step [OF ne, of statusOrder ?idx cur ci]
  obtain ci' where p: "processRow statusOrder ?idx row (cur, ci) =
           ((commit statusOrder cur ci', ci'), commit statusOrder cur ci')"
    and b: "ci \<le> ci'" "ci' \<le> roleCapIndex row ?idx ci"
    and r: "ci' = ci \<or> ranked ?idx ci'"
    by blast
  from r rk have rk': "ranked ?idx ci'" by auto
  note rb = ranked_build [OF rk']
  show ?thesis
  proof (cases "statusOrder ! ci' = []")
    case True
    then have "commit statusOrder cur ci' = Some c" by (simp add: commit_def cur)
    with p have "processRow statusOrder ?idx row (cur, ci) = ((Some c, ci'), Some c)" by simp
    moreover from rc b(1) have "rc \<le> ci'" by simp
    moreover from rc cur have "rank_le ?idx cur (Some c)" by (auto simp: rank_le_def)
    ultimately show ?thesis using rc(1) b rk' by blast
  next
    case False
    with rb(1) have "commit statusOrder cur ci' = Some (statusOrder ! ci')"
      by (simp add: commit_def)
    with p have "processRow statusOrder ?idx row (cur, ci) =
        ((Some (statusOrder ! ci'), ci'), Some (statusOrder ! ci'))" by simp
    moreover from rc b(1) rb(2) cur have "rank_le ?idx cur (Some (statusOrder ! ci'))"
      by (auto simp: rank_le_def)
    ultimately show ?thesis using rb(2) b rk' by blast
  qed
qed

lemma step_tracked:
  assumes "tracked (buildStatusIndex statusOrder) st"
  shows "tracked (buildStatusIndex statusOrder)
           (fst (processRow statusOrder (buildStatusIndex statusOrder) row st)) \<and>
         rank_le (buildStatusIndex statusOrder) (fst st)
           (fst (fst (processRow statusOrder (buildStatusIndex statusOrder) row st))) \<and>
         snd st \<le> snd (fst (processRow statusOrder (buildStatusIndex statusOrder) row st))"
proof (cases "isEmptyRow row")
  case True
  with assms show ?thesis by (simp add: processRow_empty tracked_rank_le_refl)
next
  case False
  obtain cur ci where st: "st = (cur, ci)" by (cases st)
  from processRow_tracked [OF False, of statusOrder cur ci] assms st
  show ?thesis by (auto simp: tracked_def)
qed

subsection \<open>The initial state\<close>

lemma set_fold_set_add: "set (fold set_add xs acc) = set xs \<union> set acc"
  by (induction xs arbitrary: acc) (auto simp: set_add_def)

lemma set_buildStatusSet: "set (buildStatusSet statusOrder) = set statusOrder"
  by (auto simp: buildStatusSet_def new_Set_def Let_def set_fold_set_add set_add_def)

lemma initial_current_member:
  assumes "statusOrder \<noteq> []"
  shows "\<exists>c. initial_current (buildStatusSet statusOrder) = Some c \<and> c \<in> set statusOrder"
proof (cases "set_has (buildStatusSet statusOrder) DEFAULT_FALLBACK_STATUS")
  case True
  then show ?thesis by (simp add: initial_current_def set_has_def set_buildStatusSet)
next
  case False
  from assms have "set (buildStatusSet statusOrder) \<noteq> {}" by (simp add: set_buildStatusSet)
  then obtain s ss where ss: "buildStatusSet statusOrder = s # ss"
    by (cases "buildStatusSet statusOrder") auto
  then have "s \<in> set (buildStatusSet statusOrder)" by simp
  then have "s \<in> set statusOrder" by (simp add: set_buildStatusSet)
  with False ss show ?thesis by (simp add: initial_current_def)
qed

lemma initial_state_tracked:
  assumes "statusOrder \<noteq> []"
  shows "tracked (buildStatusIndex statusOrder)
           (initial_state (buildStatusSet statusOrder) (buildStatusIndex statusOrder))"
proof -
  from initial_current_member [OF assms] obtain c where
    c: "initial_current (buildStatusSet statusOrder) = Some c" "c \<in> set statusOrder" by blast
  from buildStatusIndex_member [OF c(2)] obtain i where
    i: "map_get (buildStatusIndex statusOrder) c = Some i" ..
  have "initial_state (buildStatusSet statusOrder) (buildStatusIndex statusOrder) = (Some c, i)"
    using c(1) i by (simp add: initial_state_def)
  with i show ?thesis by (auto simp: tracked_def ranked_def)
qed

subsection \<open>One group\<close>

lemma processEntries_writes:
  "processEntries statusOrder statusIndex es st asg =
     (final_state statusOrder statusIndex es st,
      set_all (writes statusOrder statusIndex es st) asg)"
proof (induction es arbitrary: st asg)
  case Nil
  show ?case by (simp add: set_all_def)
next
  case (Cons en es)
  obtain row index where en: "en = (row, index)" by (cases en)
  obtain st' v where p: "processRow statusOrder statusIndex row st = (st', v)"
    by (cases "processRow statusOrder statusIndex row st")
  show ?case using Cons.IH [of st' "map_set index v asg"] en p
    by (simp add: set_all_def)
qed

lemma map_fst_writes: "map fst (writes statusOrder statusIndex es st) = map snd es"
  by (induction es arbitrary: st) simp_all

lemma length_writes: "length (writes statusOrder statusIndex es st) = length es"
  by (induction es arbitrary: st) simp_all

lemma set_all_other:
  "j \<notin> fst ` set ws \<Longrightarrow> map_get (set_all ws asg) j = map_get asg j"
  by (induction ws arbitrary: asg) (auto simp: set_all_def map_get_map_set)

lemma set_all_get:
  "distinct (map fst ws) \<Longrightarrow> (j, v) \<in> set ws \<Longrightarrow> map_get (set_all ws asg) j = Some v"
proof (induction ws arbitrary: asg)
  case Nil
  then show ?case by simp
next
  case (Cons w ws)
  show ?case
  proof (cases "w = (j, v)")
    case True
    with Cons.prems(1) have "j \<notin> fst ` set ws" by auto
    from set_all_other [OF this, of "map_set j v asg"] True
    show ?thesis by (simp add: set_all_def map_get_map_set)
  next
    case False
    with Cons.prems have "distinct (map fst ws)" "(j, v) \<in> set ws" by auto
    from Cons.IH [OF this, of "map_set (fst w) (snd w) asg"]
    show ?thesis by (simp add: set_all_def)
  qed
qed

lemma set_all_append: "set_all (ws @ ws') asg = set_all ws' (set_all ws asg)"
  by (simp add: set_all_def)

lemma final_state_tracked:
  assumes "tracked (buildStatusIndex statusOrder) st"
  shows "tracked (buildStatusIndex statusOrder)
           (final_state statusOrder (buildStatusIndex statusOrder) es st) \<and>
         snd st \<le> snd (final_state statusOrder (buildStatusIndex statusOrder) es st)"
  using assms
proof (induction es arbitrary: st)
  case Nil
  then show ?case by simp
next
  case (Cons en es)
  let ?st' = "fst (processRow statusOrder (buildStatusIndex statusOrder) (fst en) st)"
  from step_tracked [OF Cons.prems, of "fst en"]
  have t: "tracked (buildStatusIndex statusOrder) ?st'" and le: "snd st \<le> snd ?st'" by simp_all
  from Cons.IH [OF t] le show ?case by simp
qed

lemma writes_ge:
  "tracked (buildStatusIndex statusOrder) st \<Longrightarrow> b < length es \<Longrightarrow>
   \<not> isEmptyRow (fst (es ! b)) \<Longrightarrow>
   rank_le (buildStatusIndex statusOrder) (fst st)
     (snd (writes statusOrder (buildStatusIndex statusOrder) es st ! b))"
proof (induction es arbitrary: st b)
  case Nil
  then show ?case by simp
next
  case (Cons en es)
  obtain cur ci where st: "st = (cur, ci)" by (cases st)
  let ?idx = "buildStatusIndex statusOrder"
  let ?st' = "fst (processRow statusOrder ?idx (fst en) st)"
  show ?case
  proof (cases b)
    case 0
    with Cons.prems have ne: "\<not> isEmptyRow (fst en)" by simp
    from processRow_tracked [OF ne, of statusOrder cur ci] Cons.prems(1) st 0
    show ?thesis by auto
  next
    case (Suc b')
    from step_tracked [OF Cons.prems(1), of "fst en"]
    have t: "tracked ?idx ?st'" and r: "rank_le ?idx (fst st) (fst ?st')" by simp_all
    from Suc Cons.prems have "b' < length es" "\<not> isEmptyRow (fst (es ! b'))" by simp_all
    from Cons.IH [OF t this] have "rank_le ?idx (fst ?st') (snd (writes statusOrder ?idx es ?st' ! b'))" .
    with r have "rank_le ?idx (fst st) (snd (writes statusOrder ?idx es ?st' ! b'))"
      by (rule rank_le_trans)
    with Suc show ?thesis by simp
  qed
qed

lemma writes_mono:
  "tracked (buildStatusIndex statusOrder) st \<Longrightarrow> a < b \<Longrightarrow> b < length es \<Longrightarrow>
   \<not> isEmptyRow (fst (es ! a)) \<Longrightarrow> \<not> isEmptyRow (fst (es ! b)) \<Longrightarrow>
   rank_le (buildStatusIndex statusOrder)
     (snd (writes statusOrder (buildStatusIndex statusOrder) es st ! a))
     (snd (writes statusOrder (buildStatusIndex statusOrder) es st ! b))"
proof (induction es arbitrary: st a b)
  case Nil
  then show ?case by simp
next
  case (Cons en es)
  obtain cur ci where st: "st = (cur, ci)" by (cases st)
  let ?idx = "buildStatusIndex statusOrder"
  let ?st' = "fst (processRow statusOrder ?idx (fst en) st)"
  from Cons.prems(2) obtain b' where b: "b = Suc b'" by (cases b) auto
  from step_tracked [OF Cons.prems(1), of "fst en"] have t: "tracked ?idx ?st'" by simp
  from b Cons.prems have b': "b' < length es" "\<not> isEmptyRow (fst (es ! b'))" by simp_all
  show ?case
  proof (cases a)
    case 0
    with Cons.prems have ne: "\<not> isEmptyRow (fst en)" by simp
    from processRow_tracked [OF ne, of statusOrder cur ci] Cons.prems(1) st
    obtain ci' s where p: "processRow statusOrder ?idx (fst en) st = ((Some s, ci'), Some s)"
      by auto
    from writes_ge [OF t b'] p
    have "rank_le ?idx (Some s) (snd (writes statusOrder ?idx es ?st' ! b'))" by simp
    with p 0 b show ?thesis by simp
  next
    case (Suc a')
    with b Cons.prems have "a' < b'" "\<not> isEmptyRow (fst (es ! a'))" by simp_all
    from Cons.IH [OF t this(1) b'(1) this(2) b'(2)] Suc b show ?thesis by simp
  qed
qed

subsection \<open>Sorting and grouping keep the entries\<close>

lemma mset_insert_sorted: "mset (insert_sorted cmp x ys) = add_mset x (mset ys)"
  by (induction ys) simp_all

lemma mset_sort_js: "mset (sort_js cmp xs) = mset xs"
  by (induction xs) (simp_all add: sort_js_def mset_insert_sorted)

lemma set_sort_js: "set (sort_js cmp xs) = set xs"
  using mset_sort_js [of cmp xs] by (metis set_mset_mset)

lemma length_sort_js: "length (sort_js cmp xs) = length xs"
  using mset_sort_js [of cmp xs] by (metis size_mset)

lemma concat_map_set_absent:
  "map_of G k = None \<Longrightarrow> concat (map snd (map_set k v G)) = concat (map snd G) @ v"
  by (induction G) (auto split: if_splits)

lemma concat_map_set_present:
  "map_of G k = Some old \<Longrightarrow>
   mset (concat (map snd (map_set k (old @ [x]) G))) = add_mset x (mset (concat (map snd G)))"
  by (induction G) (auto split: if_splits)

lemma mset_group_step:
  "mset (concat (map snd (group_step en G))) = add_mset en (mset (concat (map snd G)))"
proof (cases "map_of G (row_get (fst en) JOB_ID_FIELD)")
  case None
  let ?k = "row_get (fst en) JOB_ID_FIELD"
  let ?G' = "map_set ?k [] G"
  have g: "map_of ?G' ?k = Some []" by (simp add: map_of_map_set)
  have "group_step en G = map_set ?k ([] @ [en]) ?G'"
    using None g by (simp add: group_step_def map_has_def map_get_def Let_def)
  with concat_map_set_present [OF g, of en] concat_map_set_absent [OF None, of "[]"]
  show ?thesis by simp
next
  case (Some old)
  then have "group_step en G = map_set (row_get (fst en) JOB_ID_FIELD) (old @ [en]) G"
    by (simp add: group_step_def map_has_def map_get_def Let_def)
  with concat_map_set_present [OF Some, of en] show ?thesis by simp
qed

lemma mset_fold_group_step:
  "mset (concat (map snd (fold group_step xs G))) = mset xs + mset (concat (map snd G))"
  by (induction xs arbitrary: G) (simp_all add: mset_group_step)

lemma mset_groupRows:
  "mset (concat (map snd (groupRows rows))) = mset (zip rows [0 ..< length rows])"
  by (simp add: groupRows_def mset_fold_group_step)

lemma map_snd_zip_upt: "map snd (zip rows [0 ..< length rows]) = [0 ..< length rows]"
  by simp

lemma distinct_group_indices:
  "distinct (map snd (concat (map snd (groupRows rows))))"
proof -
  have "mset (map snd (concat (map snd (groupRows rows)))) = mset [0 ..< length rows]"
    using mset_groupRows [of rows] map_snd_zip_upt [of rows] by (metis mset_map)
  then show ?thesis by (metis distinct_upt mset_eq_imp_distinct_iff)
qed

lemma mset_sorted_entries: "mset (sorted_entries e G) = mset (concat (map snd G))"
  by (induction G) (simp_all add: sorted_entries_def mset_sort_js)

lemma distinct_sorted_entries: "distinct (map snd (sorted_entries e (groupRows rows)))"
proof -
  have "mset (map snd (sorted_entries e (groupRows rows))) =
        mset (map snd (concat (map snd (groupRows rows))))"
    using mset_sorted_entries [of e "groupRows rows"] by (metis mset_map)
  with distinct_group_indices [of rows] show ?thesis by (metis mset_eq_imp_distinct_iff)
qed

lemma row_in_group:
  assumes "i < length rows"
  shows "\<exists>g\<in>set (groupRows rows). (rows ! i, i) \<in> set (sort_js (compareEntries e) (snd g))"
proof -
  from assms have "(rows ! i, i) \<in> set (zip rows [0 ..< length rows])"
    by (auto simp: set_zip)
  then have "(rows ! i, i) \<in># mset (concat (map snd (groupRows rows)))"
    by (simp add: mset_groupRows)
  then have "(rows ! i, i) \<in> set (concat (map snd (groupRows rows)))" by simp
  then show ?thesis by (auto simp: set_sort_js)
qed

lemma group_entry_is_row:
  assumes "g \<in> set (groupRows rows)" and "en \<in> set (snd g)"
  shows "snd en < length rows \<and> fst en = rows ! snd en"
proof -
  from assms have "en \<in> set (concat (map snd (groupRows rows)))" by auto
  then have "en \<in># mset (concat (map snd (groupRows rows)))" by simp
  then have "en \<in> set (zip rows [0 ..< length rows])" by (simp add: mset_groupRows)
  then obtain j where "j < length rows" "en = (rows ! j, j)" by (auto simp: set_zip)
  then show ?thesis by simp
qed

subsection \<open>The whole run\<close>

lemma fold_processGroup:
  "fold (processGroup e statusSet statusOrder statusIndex) G asg =
     set_all (all_writes e statusSet statusOrder statusIndex G) asg"
proof (induction G arbitrary: asg)
  case Nil
  show ?case by (simp add: all_writes_def set_all_def)
next
  case (Cons g G)
  have "processGroup e statusSet statusOrder statusIndex g asg =
          set_all (writes statusOrder statusIndex (sort_js (compareEntries e) (snd g))
                     (initial_state statusSet statusIndex)) asg"
    by (simp add: processGroup_def processEntries_writes)
  with Cons.IH show ?case by (simp add: all_writes_def set_all_append)
qed

lemma map_fst_all_writes:
  "map fst (all_writes e statusSet statusOrder statusIndex G) = map snd (sorted_entries e G)"
  by (induction G) (simp_all add: all_writes_def sorted_entries_def map_fst_writes)

lemma writes_nth:
  "k < length es \<Longrightarrow>
   writes statusOrder statusIndex es st ! k =
     (snd (es ! k), snd (writes statusOrder statusIndex es st ! k))"
  using map_fst_writes [of statusOrder statusIndex es st]
  by (metis length_writes nth_map prod.collapse)

lemma inferStatuses_get:
  assumes g: "g \<in> set (groupRows rows)" and k: "k < length (snd g)"
  shows "map_get (inferStatuses e rows statusSet statusOrder statusIndex)
           (snd (sort_js (compareEntries e) (snd g) ! k)) =
         Some (snd (writes statusOrder statusIndex (sort_js (compareEntries e) (snd g))
                      (initial_state statusSet statusIndex) ! k))"
proof -
  let ?es = "sort_js (compareEntries e) (snd g)"
  let ?ws = "writes statusOrder statusIndex ?es (initial_state statusSet statusIndex)"
  let ?all = "all_writes e statusSet statusOrder statusIndex (groupRows rows)"
  from k have k': "k < length ?es" by (simp add: length_sort_js)
  then have "?ws ! k \<in> set ?ws" by (simp add: length_writes)
  with g have "?ws ! k \<in> set ?all" by (auto simp: all_writes_def)
  with writes_nth [OF k', of statusOrder statusIndex "initial_state statusSet statusIndex"]
  have mem: "(snd (?es ! k), snd (?ws ! k)) \<in> set ?all" by simp
  have "distinct (map fst ?all)"
    by (simp add: map_fst_all_writes distinct_sorted_entries)
  from set_all_get [OF this mem, of "[]"] show ?thesis
    by (simp add: inferStatuses_def fold_processGroup)
qed

lemma writes_empty_row:
  "k < length es \<Longrightarrow> isEmptyRow (fst (es ! k)) \<Longrightarrow>
   snd (writes statusOrder statusIndex es st ! k) = Some []"
proof (induction es arbitrary: st k)
  case Nil
  then show ?case by simp
next
  case (Cons en es)
  then show ?case by (cases k) (simp_all add: processRow_empty)
qed

lemma final_state_append:
  "final_state statusOrder statusIndex (pre @ post) st =
     final_state statusOrder statusIndex post (final_state statusOrder statusIndex pre st)"
  by (induction pre arbitrary: st) simp_all

lemma writes_append:
  "writes statusOrder statusIndex (pre @ post) st =
     writes statusOrder statusIndex pre st @
     writes statusOrder statusIndex post (final_state statusOrder statusIndex pre st)"
  by (induction pre arbitrary: st) simp_all

lemma set_all_cong_get:
  "map_get asg1 k = map_get asg2 k \<Longrightarrow> map_get (set_all ws asg1) k = map_get (set_all ws asg2) k"
  by (induction ws arbitrary: asg1 asg2) (simp_all add: set_all_def map_get_map_set)

lemma empty_row_frame:
  assumes "isEmptyRow row"
  shows "fst (processEntries statusOrder statusIndex (pre @ (row, j) # post) st asg) =
         fst (processEntries statusOrder statusIndex (pre @ post) st asg)"
    and "k \<noteq> j \<Longrightarrow>
         map_get (snd (processEntries statusOrder statusIndex (pre @ (row, j) # post) st asg)) k =
         map_get (snd (processEntries statusOrder statusIndex (pre @ post) st asg)) k"
proof -
  let ?mid = "final_state statusOrder statusIndex pre st"
  have fs: "final_state statusOrder statusIndex ((row, j) # post) ?mid =
            final_state statusOrder statusIndex post ?mid"
    using assms by (simp add: processRow_empty)
  show "fst (processEntries statusOrder statusIndex (pre @ (row, j) # post) st asg) =
        fst (processEntries statusOrder statusIndex (pre @ post) st asg)"
    using assms by (simp add: processEntries_writes final_state_append processRow_empty)
  assume kj: "k \<noteq> j"
  have ws: "writes statusOrder statusIndex ((row, j) # post) ?mid =
            (j, Some []) # writes statusOrder statusIndex post ?mid"
    using assms by (simp add: processRow_empty)
  let ?a = "set_all (writes statusOrder statusIndex pre st) asg"
  have "map_get (map_set j (Some []) ?a) k = map_get ?a k"
    using kj by (simp add: map_get_map_set)
  from set_all_cong_get [OF this, of "writes statusOrder statusIndex post ?mid"]
  show "map_get (snd (processEntries statusOrder statusIndex (pre @ (row, j) # post) st asg)) k =
        map_get (snd (processEntries statusOrder statusIndex (pre @ post) st asg)) k"
    using assms
    by (simp add: processEntries_writes writes_append set_all_append processRow_empty)
       (simp add: set_all_def)
qed

lemma row_position:
  assumes "i < length rows"
  shows "\<exists>g\<in>set (groupRows rows). \<exists>k<length (snd g).
           sort_js (compareEntries e) (snd g) ! k = (rows ! i, i)"
proof -
  from row_in_group [OF assms, of e] obtain g where g: "g \<in> set (groupRows rows)"
    and m: "(rows ! i, i) \<in> set (sort_js (compareEntries e) (snd g))" by blast
  from m obtain k where "k < length (sort_js (compareEntries e) (snd g))"
    "sort_js (compareEntries e) (snd g) ! k = (rows ! i, i)" by (auto simp: in_set_conv_nth)
  with g show ?thesis by (auto simp: length_sort_js)
qed

lemma empty_row_assignment:
  assumes "i < length rows" and "isEmptyRow (rows ! i)"
  shows "map_get (inferStatuses e rows statusSet statusOrder statusIndex) i = Some (Some [])"
proof -
  from row_position [OF assms(1), of e] obtain g k where g: "g \<in> set (groupRows rows)"
    and k: "k < length (snd g)"
    and at: "sort_js (compareEntries e) (snd g) ! k = (rows ! i, i)" by blast
  from k have k': "k < length (sort_js (compareEntries e) (snd g))" by (simp add: length_sort_js)
  from at assms(2) have "isEmptyRow (fst (sort_js (compareEntries e) (snd g) ! k))" by simp
  from writes_empty_row [OF k' this]
    inferStatuses_get [OF g k, of e statusSet statusOrder statusIndex] at
  show ?thesis by simp
qed

subsection \<open>How far a group can advance\<close>

text \<open>
  Under the canonical order the highest rank among the statuses of \<^verbatim>\<open>ROLE_MAX_STATUS\<close> is
  10 (\<^verbatim>\<open>Final Submission Sent\<close>). Since the cap of a row is the floor or the greater of
  the floor and such a rank, no sequence of rows moves the cursor of a group from the
  fallback beyond rank 10: the statuses \<^verbatim>\<open>Ready to Invoice\<close>, \<^verbatim>\<open>Invoiced\<close> and
  \<^verbatim>\<open>Complete\<close> are never reached, whatever the roles, the explicit statuses and the
  wording of the rows. The source says of \<^verbatim>\<open>ROLE_MAX_STATUS\<close> that it keeps field roles
  from being marked Complete solely due to wording.
\<close>

lemma canonical_cap_ranks:
  "list_all (\<lambda>c. case map_get (buildStatusIndex canonical_order) (maxStatus c) of
                   Some r \<Rightarrow> r \<le> 10 | None \<Rightarrow> True) ROLE_MAX_STATUS"
  by code_simp

lemma canonical_cap_bound:
  assumes "ci \<le> 10"
  shows "roleCapIndex row (buildStatusIndex canonical_order) ci \<le> 10"
proof -
  from roleCapIndex_cases [of row "buildStatusIndex canonical_order" ci]
  show ?thesis
  proof
    assume "roleCapIndex row (buildStatusIndex canonical_order) ci = ci"
    with assms show ?thesis by simp
  next
    assume "\<exists>cap\<in>set ROLE_MAX_STATUS. test (cap_match cap) (or_empty (row_get row ROLE_FIELD)) \<and>
      (\<exists>c. map_get (buildStatusIndex canonical_order) (maxStatus cap) = Some c \<and>
           roleCapIndex row (buildStatusIndex canonical_order) ci = max ci c)"
    then obtain cap c where cap: "cap \<in> set ROLE_MAX_STATUS"
      and c: "map_get (buildStatusIndex canonical_order) (maxStatus cap) = Some c"
      and r: "roleCapIndex row (buildStatusIndex canonical_order) ci = max ci c" by blast
    from canonical_cap_ranks cap c have "c \<le> 10" by (auto simp: list_all_iff)
    with r assms show ?thesis by simp
  qed
qed

lemma canonical_step_bound:
  assumes "snd st \<le> 10"
  shows "snd (fst (processRow canonical_order (buildStatusIndex canonical_order) row st)) \<le> 10"
proof (cases "isEmptyRow row")
  case True
  with assms show ?thesis by (simp add: processRow_empty)
next
  case False
  obtain cur ci where st: "st = (cur, ci)" by (cases st)
  from processRow_step [OF False, of canonical_order "buildStatusIndex canonical_order" cur ci]
    canonical_cap_bound [of ci row] assms st
  show ?thesis by auto
qed

lemma canonical_final_bound:
  "snd st \<le> 10 \<Longrightarrow>
   snd (final_state canonical_order (buildStatusIndex canonical_order) es st) \<le> 10"
  by (induction es arbitrary: st) (simp_all add: canonical_step_bound)

lemma canonical_group_bound:
  "snd (fst (processEntries canonical_order (buildStatusIndex canonical_order) es
               (initial_state (buildStatusSet canonical_order) (buildStatusIndex canonical_order))
               asg)) \<le> 10"
proof -
  have "snd (initial_state (buildStatusSet canonical_order) (buildStatusIndex canonical_order)) \<le> 10"
    by code_simp
  then show ?thesis by (simp add: processEntries_writes canonical_final_bound)
qed

subsection \<open>The claims on the first variant\<close>

text \<open>
  Claim C1: \<^verbatim>\<open>roleCapIndex\<close> (capRank) returns the minimum target rank over the role-cap
  entries that match the row's role, an unbounded cap when none matches, and never a value
  below the floor. The source ends with \<^verbatim>\<open>if (capIdx === Infinity) return floorIdx\<close>: for
  a role that no entry matches the cap is the floor itself. The theorem evaluates the
  function for the role \<^verbatim>\<open>Accounting\<close> at floor 0 under the canonical order: the cap is 0,
  not unbounded, so ranks 1 to 13 are closed to the row.
\<close>

theorem roleCapIndex_unmatched_role_is_floor:
  "roleCapIndex ex_accounting_row (buildStatusIndex canonical_order) 0 = 0"
  by code_simp

text \<open>
  Claim C2: in the first variant, a non-empty row whose role field matches no
  \<^verbatim>\<open>ROLE_MAX_STATUS\<close> pattern leaves the rank cursor of its group unchanged: the cap that
  \<^verbatim>\<open>roleCapIndex\<close> computes equals the floor, so neither the explicit status nor a signal
  can raise \<^verbatim>\<open>currentIdx\<close>.
\<close>

theorem unmatched_role_keeps_rank:
  assumes "\<not> isEmptyRow row"
    and "\<forall>c\<in>set ROLE_MAX_STATUS. \<not> test (cap_match c) (or_empty (row_get row ROLE_FIELD))"
  shows "roleCapIndex row (buildStatusIndex statusOrder) currentIdx = currentIdx \<and>
         snd (fst (processRow statusOrder (buildStatusIndex statusOrder) row (current, currentIdx)))
           = currentIdx"
proof -
  have cap: "roleCapIndex row (buildStatusIndex statusOrder) currentIdx = currentIdx"
    using assms(2) by (rule roleCapIndex_no_match)
  from processRow_step [OF assms(1), of statusOrder "buildStatusIndex statusOrder" current currentIdx]
  obtain ci' where "processRow statusOrder (buildStatusIndex statusOrder) row (current, currentIdx) =
        ((commit statusOrder current ci', ci'), commit statusOrder current ci')"
    "currentIdx \<le> ci'" "ci' \<le> roleCapIndex row (buildStatusIndex statusOrder) currentIdx"
    by blast
  with cap show ?thesis by simp
qed

theorem unmatched_role_keeps_rank_witness:
  "roleCapIndex ex_accounting_row (buildStatusIndex canonical_order) 0 = 0 \<and>
   snd (fst (processRow canonical_order (buildStatusIndex canonical_order) ex_accounting_row
               (Some ''Estimating'', 0))) = 0"
proof -
  have h1: "\<not> isEmptyRow ex_accounting_row" by code_simp
  have h2: "\<forall>c\<in>set ROLE_MAX_STATUS.
      \<not> test (cap_match c) (or_empty (row_get ex_accounting_row ROLE_FIELD))" by code_simp
  from unmatched_role_keeps_rank [OF h1 h2, of canonical_order 0 "Some ''Estimating''"] h1 h2
  show ?thesis by blast
qed

text \<open>
  Claim C3: a single-row job whose row has an unrecognised explicit status, an empty role
  and the description \<^verbatim>\<open>site survey and field scan today\<close> is assigned
  \<^verbatim>\<open>Field Work in Progress\<close>. The theorem evaluates \<^verbatim>\<open>inferStatuses\<close> on that input, for
  any runtime: the row is assigned \<^verbatim>\<open>Estimating\<close>, because the empty role matches no cap
  entry and the cap is then the floor.
\<close>

theorem keyword_only_row_stays_at_fallback:
  "inferStatuses e [ex_survey_row] (buildStatusSet canonical_order) canonical_order
     (buildStatusIndex canonical_order) = [(0, Some ''Estimating'')]"
  by code_simp

text \<open>
  Claim C4: a job of two rows with explicit statuses \<^verbatim>\<open>Complete\<close> and \<^verbatim>\<open>Estimating\<close>, in
  canonical order, receives the assignments \<^verbatim>\<open>Complete\<close>, \<^verbatim>\<open>Complete\<close>. The theorem
  evaluates \<^verbatim>\<open>inferStatuses\<close> on that input, for any runtime: both rows are assigned
  \<^verbatim>\<open>Estimating\<close>, because the rows carry no role and the explicit status is clamped to a
  cap that equals the floor.
\<close>

theorem explicit_complete_row_stays_at_fallback:
  "inferStatuses e [ex_complete_row, ex_estimating_row] (buildStatusSet canonical_order)
     canonical_order (buildStatusIndex canonical_order) =
   [(0, Some ''Estimating''), (1, Some ''Estimating'')]"
  by code_simp

text \<open>
  Claim C8: \<^verbatim>\<open>pickStatusFromSignals\<close> considers only the statuses whose rank lies in the
  interval from floor to cap, both included, and whose score is positive; among them it
  returns the rank of the one with the highest score, the higher rank winning a tie; it
  returns null exactly when there is no such status. An entry of \<open>scoreStatuses\<close> is a
  pair of a status and its score.
\<close>

theorem pickStatusFromSignals_selects_best:
  "(pickStatusFromSignals row floorIdx capIdx statusOrder (buildStatusIndex statusOrder) = None) =
     (\<forall>en\<in>set (scoreStatuses row statusOrder (buildStatusIndex statusOrder)).
        \<forall>i. map_get (buildStatusIndex statusOrder) (fst en) = Some i \<longrightarrow>
            \<not> (floorIdx \<le> i \<and> i \<le> capIdx \<and> 0 < snd en)) \<and>
   (\<forall>g. pickStatusFromSignals row floorIdx capIdx statusOrder (buildStatusIndex statusOrder) = Some g
      \<longrightarrow>
      (\<exists>en\<in>set (scoreStatuses row statusOrder (buildStatusIndex statusOrder)).
         map_get (buildStatusIndex statusOrder) (fst en) = Some g \<and>
         floorIdx \<le> g \<and> g \<le> capIdx \<and> 0 < snd en \<and>
         (\<forall>en'\<in>set (scoreStatuses row statusOrder (buildStatusIndex statusOrder)).
            \<forall>i. map_get (buildStatusIndex statusOrder) (fst en') = Some i \<and>
                floorIdx \<le> i \<and> i \<le> capIdx \<and> 0 < snd en' \<longrightarrow>
                snd en' < snd en \<or> (snd en' = snd en \<and> i \<le> g))))"
proof (intro conjI allI impI)
  let ?idx = "buildStatusIndex statusOrder"
  let ?scores = "scoreStatuses row statusOrder ?idx"
  have "(pickStatusFromSignals row floorIdx capIdx statusOrder ?idx = None) =
        (fold (pick_step ?idx floorIdx capIdx) ?scores None = None)"
    by (simp add: pickStatusFromSignals_def Let_def split: option.splits)
  also have "\<dots> = (\<forall>en\<in>set ?scores. \<not> (\<exists>i. cand ?idx floorIdx capIdx en i))"
    by (simp add: fold_pick_None)
  also have "\<dots> = (\<forall>en\<in>set ?scores. \<forall>i. map_get ?idx (fst en) = Some i \<longrightarrow>
            \<not> (floorIdx \<le> i \<and> i \<le> capIdx \<and> 0 < snd en))"
    by (auto simp: cand_def)
  finally show "(pickStatusFromSignals row floorIdx capIdx statusOrder ?idx = None) =
     (\<forall>en\<in>set ?scores. \<forall>i. map_get ?idx (fst en) = Some i \<longrightarrow>
            \<not> (floorIdx \<le> i \<and> i \<le> capIdx \<and> 0 < snd en))" .
next
  fix g
  let ?idx = "buildStatusIndex statusOrder"
  let ?scores = "scoreStatuses row statusOrder ?idx"
  assume "pickStatusFromSignals row floorIdx capIdx statusOrder ?idx = Some g"
  then obtain x where x: "fold (pick_step ?idx floorIdx capIdx) ?scores None = Some x"
    and g: "g = idx x"
    by (auto simp: pickStatusFromSignals_def Let_def split: option.splits)
  from fold_pick_Some [OF x] obtain en where en: "en \<in> set ?scores" "snd en = score x"
    "cand ?idx floorIdx capIdx en (idx x)"
    and best: "\<forall>en'\<in>set ?scores. \<forall>i. cand ?idx floorIdx capIdx en' i \<longrightarrow> not_above (snd en') i x"
    by auto
  have "\<forall>en'\<in>set ?scores. \<forall>i. map_get ?idx (fst en') = Some i \<and>
                floorIdx \<le> i \<and> i \<le> capIdx \<and> 0 < snd en' \<longrightarrow>
                snd en' < snd en \<or> (snd en' = snd en \<and> i \<le> g)"
    using best en(2) g by (auto simp: cand_def not_above_def)
  moreover from en(3) g have "map_get ?idx (fst en) = Some g \<and>
         floorIdx \<le> g \<and> g \<le> capIdx \<and> 0 < snd en"
    by (simp add: cand_def)
  ultimately show "\<exists>en\<in>set ?scores.
         map_get ?idx (fst en) = Some g \<and>
         floorIdx \<le> g \<and> g \<le> capIdx \<and> 0 < snd en \<and>
         (\<forall>en'\<in>set ?scores.
            \<forall>i. map_get ?idx (fst en') = Some i \<and>
                floorIdx \<le> i \<and> i \<le> capIdx \<and> 0 < snd en' \<longrightarrow>
                snd en' < snd en \<or> (snd en' = snd en \<and> i \<le> g))"
    using en(1) by (intro bexI [of _ en]) simp_all
qed

theorem pickStatusFromSignals_selects_best_witness:
  "pickStatusFromSignals ex_tie_row 0 13 canonical_order (buildStatusIndex canonical_order) = Some 9 \<and>
   (\<exists>en. en \<in> set (scoreStatuses ex_tie_row canonical_order (buildStatusIndex canonical_order)) \<and>
      map_get (buildStatusIndex canonical_order) (fst en) = Some 9 \<and> 0 < snd en)"
proof -
  have p: "pickStatusFromSignals ex_tie_row 0 13 canonical_order
             (buildStatusIndex canonical_order) = Some 9"
    by code_simp
  from pickStatusFromSignals_selects_best [of ex_tie_row 0 13 canonical_order,
      THEN conjunct2, rule_format, OF p] p
  show ?thesis by blast
qed

text \<open>
  Claim C5 (monotone progression): for a non-empty status order, any job group \<open>g\<close> of
  the input and any two non-empty rows at positions \<open>a < b\<close> of the group's canonical
  (sorted) order, the status assigned to the later row has a rank that is at least the rank
  of the status assigned to the earlier one.
\<close>

theorem monotone_progression:
  assumes "statusOrder \<noteq> []"
    and "g \<in> set (groupRows rows)"
    and "a < b" and "b < length (snd g)"
    and "\<not> isEmptyRow (fst (sort_js (compareEntries e) (snd g) ! a))"
    and "\<not> isEmptyRow (fst (sort_js (compareEntries e) (snd g) ! b))"
  shows "\<exists>sa sb ra rb.
     map_get (inferStatuses e rows (buildStatusSet statusOrder) statusOrder
                (buildStatusIndex statusOrder))
       (snd (sort_js (compareEntries e) (snd g) ! a)) = Some (Some sa) \<and>
     map_get (inferStatuses e rows (buildStatusSet statusOrder) statusOrder
                (buildStatusIndex statusOrder))
       (snd (sort_js (compareEntries e) (snd g) ! b)) = Some (Some sb) \<and>
     map_get (buildStatusIndex statusOrder) sa = Some ra \<and>
     map_get (buildStatusIndex statusOrder) sb = Some rb \<and> ra \<le> rb"
proof -
  let ?idx = "buildStatusIndex statusOrder"
  let ?ss = "buildStatusSet statusOrder"
  let ?es = "sort_js (compareEntries e) (snd g)"
  from assms(3,4) have a: "a < length (snd g)" by simp
  have b: "b < length ?es" using assms(4) by (simp add: length_sort_js)
  from writes_mono [OF initial_state_tracked [OF assms(1)] assms(3) b assms(5,6)]
  obtain sa sb ra rb where
    w: "snd (writes statusOrder ?idx ?es (initial_state ?ss ?idx) ! a) = Some sa"
       "snd (writes statusOrder ?idx ?es (initial_state ?ss ?idx) ! b) = Some sb"
    and r: "map_get ?idx sa = Some ra" "map_get ?idx sb = Some rb" "ra \<le> rb"
    unfolding rank_le_def by blast
  from inferStatuses_get [OF assms(2) a, of e ?ss statusOrder ?idx] w(1)
  have "map_get (inferStatuses e rows ?ss statusOrder ?idx) (snd (?es ! a)) = Some (Some sa)"
    by simp
  moreover from inferStatuses_get [OF assms(2,4), of e ?ss statusOrder ?idx] w(2)
  have "map_get (inferStatuses e rows ?ss statusOrder ?idx) (snd (?es ! b)) = Some (Some sb)"
    by simp
  ultimately show ?thesis using r by blast
qed

theorem monotone_progression_witness:
  "\<exists>sa sb ra rb.
     map_get (inferStatuses ex_env [ex_field_row, ex_pm_row] (buildStatusSet canonical_order)
                canonical_order (buildStatusIndex canonical_order))
       (snd (sort_js (compareEntries ex_env)
               (snd (Some ''J-100'', [(ex_field_row, 0), (ex_pm_row, 1)])) ! 0)) = Some (Some sa) \<and>
     map_get (inferStatuses ex_env [ex_field_row, ex_pm_row] (buildStatusSet canonical_order)
                canonical_order (buildStatusIndex canonical_order))
       (snd (sort_js (compareEntries ex_env)
               (snd (Some ''J-100'', [(ex_field_row, 0), (ex_pm_row, 1)])) ! 1)) = Some (Some sb) \<and>
     map_get (buildStatusIndex canonical_order) sa = Some ra \<and>
     map_get (buildStatusIndex canonical_order) sb = Some rb \<and> ra \<le> rb"
proof -
  let ?g = "(Some ''J-100'', [(ex_field_row, 0::nat), (ex_pm_row, 1)])"
  have h1: "canonical_order \<noteq> []" by code_simp
  have h3: "?g \<in> set (groupRows [ex_field_row, ex_pm_row])" by code_simp
  have h4: "(0::nat) < 1" by simp
  have h5: "1 < length (snd ?g)" by simp
  have h6: "\<not> isEmptyRow (fst (sort_js (compareEntries ex_env) (snd ?g) ! 0))" by code_simp
  have h7: "\<not> isEmptyRow (fst (sort_js (compareEntries ex_env) (snd ?g) ! 1))" by code_simp
  from monotone_progression [OF h1 h3 h4 h5 h6 h7] show ?thesis .
qed

text \<open>
  Claim C6 (cap respect): let \<open>st\<close> be the state of a group after any earlier rows
  \<open>pre\<close>. For a non-empty row whose role matches a role-cap entry with a ranked status, the
  status assigned to the row has a rank of at most the cap's rank, unless the rank carried
  forward already exceeded it. This holds for every matching entry, so for the most
  restrictive one.
\<close>

theorem cap_respect:
  assumes "st = fst (processEntries statusOrder (buildStatusIndex statusOrder) pre
                     (initial_state (buildStatusSet statusOrder) (buildStatusIndex statusOrder)) asg)"
    and "\<not> isEmptyRow row"
    and "c \<in> set ROLE_MAX_STATUS"
    and "test (cap_match c) (or_empty (row_get row ROLE_FIELD))"
    and "map_get (buildStatusIndex statusOrder) (maxStatus c) = Some capRank"
    and "snd st \<le> capRank"
  shows "\<exists>s r. snd (processRow statusOrder (buildStatusIndex statusOrder) row st) = Some s \<and>
               map_get (buildStatusIndex statusOrder) s = Some r \<and> r \<le> capRank"
proof -
  let ?idx = "buildStatusIndex statusOrder"
  obtain cur ci where st: "st = (cur, ci)" by (cases st)
  from buildStatusIndex_Some [OF assms(5)] have ne: "statusOrder \<noteq> []" by auto
  from final_state_tracked [OF initial_state_tracked [OF ne], of pre]
  have "tracked ?idx st" unfolding assms(1) by (simp add: processEntries_writes)
  then have tr: "tracked ?idx (cur, ci)" by (simp add: st)
  from processRow_tracked [OF assms(2) tr]
  obtain ci' s r where p: "processRow statusOrder ?idx row (cur, ci) = ((Some s, ci'), Some s)"
    and r: "map_get ?idx s = Some r" "r \<le> ci'" and le: "ci' \<le> roleCapIndex row ?idx ci"
    by blast
  from roleCapIndex_respects [OF assms(3,4,5), of ci] assms(6) st
  have "roleCapIndex row ?idx ci \<le> capRank" by simp
  with le r(2) have "r \<le> capRank" by simp
  with p r(1) st show ?thesis by simp
qed

theorem cap_respect_witness:
  "\<exists>s r. snd (processRow canonical_order (buildStatusIndex canonical_order) ex_field_row
                (fst (processEntries canonical_order (buildStatusIndex canonical_order) []
                        (initial_state (buildStatusSet canonical_order)
                           (buildStatusIndex canonical_order)) []))) = Some s \<and>
         map_get (buildStatusIndex canonical_order) s = Some r \<and> r \<le> 5"
proof -
  let ?c = "\<lparr>cap_match = re_i [''survey'', ''field'', ''technician'', ''technologist''],
             maxStatus = ''Field Work in Progress''\<rparr>"
  have h4: "\<not> isEmptyRow ex_field_row" by code_simp
  have h5: "?c \<in> set ROLE_MAX_STATUS" by code_simp
  have h6: "test (cap_match ?c) (or_empty (row_get ex_field_row ROLE_FIELD))" by code_simp
  have h7: "map_get (buildStatusIndex canonical_order) (maxStatus ?c) = Some 5" by code_simp
  have h8: "snd (fst (processEntries canonical_order (buildStatusIndex canonical_order) []
                        (initial_state (buildStatusSet canonical_order)
                           (buildStatusIndex canonical_order)) [])) \<le> 5" by code_simp
  from cap_respect [OF refl h4 h5 h6 h7 h8] show ?thesis .
qed

text \<open>
  Claim C7 (empty-row pass-through): a row whose fields are all empty or absent is assigned
  the empty string, whatever its place in the input; and within a group, processing it
  changes nothing else: with the row at any place of the entries, the state at the end and
  the values assigned to all other rows are the same as without it. In particular the
  state seen by the next row is the state the previous row left.
\<close>

theorem empty_row_pass_through:
  assumes "isEmptyRow row"
  shows "(\<forall>i<length rows. rows ! i = row \<longrightarrow>
            map_get (inferStatuses e rows (buildStatusSet statusOrder) statusOrder
                       (buildStatusIndex statusOrder)) i = Some (Some [])) \<and>
         processRow statusOrder (buildStatusIndex statusOrder) row st = (st, Some []) \<and>
         fst (processEntries statusOrder (buildStatusIndex statusOrder)
                (pre @ (row, j) # post) st asg) =
         fst (processEntries statusOrder (buildStatusIndex statusOrder) (pre @ post) st asg) \<and>
         (\<forall>k. k \<noteq> j \<longrightarrow>
            map_get (snd (processEntries statusOrder (buildStatusIndex statusOrder)
                            (pre @ (row, j) # post) st asg)) k =
            map_get (snd (processEntries statusOrder (buildStatusIndex statusOrder)
                            (pre @ post) st asg)) k)"
  using assms empty_row_assignment empty_row_frame processRow_empty by simp

theorem empty_row_pass_through_witness:
  "map_get (inferStatuses ex_env [ex_field_row, ex_empty_row, ex_pm_row]
              (buildStatusSet canonical_order) canonical_order
              (buildStatusIndex canonical_order)) 1 = Some (Some []) \<and>
   fst (processEntries canonical_order (buildStatusIndex canonical_order)
          ([(ex_field_row, 0)] @ (ex_empty_row, 1) # [(ex_pm_row, 2)])
          (Some ''Estimating'', 0) []) =
   fst (processEntries canonical_order (buildStatusIndex canonical_order)
          ([(ex_field_row, 0)] @ [(ex_pm_row, 2)]) (Some ''Estimating'', 0) []) \<and>
   map_get (snd (processEntries canonical_order (buildStatusIndex canonical_order)
                   ([(ex_field_row, 0)] @ (ex_empty_row, 1) # [(ex_pm_row, 2)])
                   (Some ''Estimating'', 0) [])) 2 =
   map_get (snd (processEntries canonical_order (buildStatusIndex canonical_order)
                   ([(ex_field_row, 0)] @ [(ex_pm_row, 2)]) (Some ''Estimating'', 0) [])) 2"
proof -
  have h: "isEmptyRow ex_empty_row" by code_simp
  note t = empty_row_pass_through [OF h, of "[ex_field_row, ex_empty_row, ex_pm_row]" ex_env
      canonical_order "(Some ''Estimating'', 0)" "[(ex_field_row, 0)]" 1 "[(ex_pm_row, 2)]" "[]"]
  from t have "map_get (inferStatuses ex_env [ex_field_row, ex_empty_row, ex_pm_row]
              (buildStatusSet canonical_order) canonical_order
              (buildStatusIndex canonical_order)) 1 = Some (Some [])" by simp
  moreover from t have "map_get (snd (processEntries canonical_order (buildStatusIndex canonical_order)
                   ([(ex_field_row, 0)] @ (ex_empty_row, 1) # [(ex_pm_row, 2)])
                   (Some ''Estimating'', 0) [])) 2 =
   map_get (snd (processEntries canonical_order (buildStatusIndex canonical_order)
                   ([(ex_field_row, 0)] @ [(ex_pm_row, 2)]) (Some ''Estimating'', 0) [])) 2"
    by simp
  ultimately show ?thesis using t by blast
qed

subsection \<open>The second variant\<close>

lemma processEntries2_writes:
  "snd (processEntries2 statusSet es current asg) = set_all (writes2 statusSet es current) asg"
proof (induction es arbitrary: current asg)
  case Nil
  show ?case by (simp add: set_all_def)
next
  case (Cons en es)
  obtain row index where en: "en = (row, index)" by (cases en)
  show ?case
    using Cons.IH [of "processRow2 statusSet row current"
                      "map_set index (processRow2 statusSet row current) asg"] en
    by (simp add: set_all_def)
qed

lemma map_fst_writes2: "map fst (writes2 statusSet es current) = map snd es"
  by (induction es arbitrary: current) simp_all

lemma length_writes2: "length (writes2 statusSet es current) = length es"
  by (induction es arbitrary: current) simp_all

lemma writes2_nth:
  "k < length es \<Longrightarrow>
   writes2 statusSet es current ! k = (snd (es ! k), snd (writes2 statusSet es current ! k))"
  using map_fst_writes2 [of statusSet es current]
  by (metis length_writes2 nth_map prod.collapse)

lemma fold_processGroup2:
  "fold (processGroup2 e statusSet) G asg = set_all (all_writes2 e statusSet G) asg"
proof (induction G arbitrary: asg)
  case Nil
  show ?case by (simp add: all_writes2_def set_all_def)
next
  case (Cons g G)
  have "processGroup2 e statusSet g asg =
          set_all (writes2 statusSet (sort_js (compareEntries e) (snd g))
                     (initial_current statusSet)) asg"
    by (simp add: processGroup2_def processEntries2_writes)
  with Cons.IH show ?case by (simp add: all_writes2_def set_all_append)
qed

lemma map_fst_all_writes2:
  "map fst (all_writes2 e statusSet G) = map snd (sorted_entries e G)"
  by (induction G) (simp_all add: all_writes2_def sorted_entries_def map_fst_writes2)

lemma inferStatuses2_get:
  assumes g: "g \<in> set (groupRows rows)" and k: "k < length (snd g)"
  shows "map_get (inferStatuses2 e rows statusSet) (snd (sort_js (compareEntries e) (snd g) ! k)) =
         Some (snd (writes2 statusSet (sort_js (compareEntries e) (snd g))
                      (initial_current statusSet) ! k))"
proof -
  let ?es = "sort_js (compareEntries e) (snd g)"
  let ?ws = "writes2 statusSet ?es (initial_current statusSet)"
  let ?all = "all_writes2 e statusSet (groupRows rows)"
  from k have k': "k < length ?es" by (simp add: length_sort_js)
  then have "?ws ! k \<in> set ?ws" by (simp add: length_writes2)
  with g have "?ws ! k \<in> set ?all" by (auto simp: all_writes2_def)
  with writes2_nth [OF k', of statusSet "initial_current statusSet"]
  have mem: "(snd (?es ! k), snd (?ws ! k)) \<in> set ?all" by simp
  have "distinct (map fst ?all)"
    by (simp add: map_fst_all_writes2 distinct_sorted_entries)
  from set_all_get [OF this mem, of "[]"] show ?thesis
    by (simp add: inferStatuses2_def fold_processGroup2)
qed

lemma writes2_member:
  "k < length es \<Longrightarrow> row_get (fst (es ! k)) STATUS_FIELD = Some s \<Longrightarrow> set_has statusSet s \<Longrightarrow>
   snd (writes2 statusSet es current ! k) = Some s"
proof (induction es arbitrary: current k)
  case Nil
  then show ?case by simp
next
  case (Cons en es)
  then show ?case by (cases k) (simp_all add: processRow2_def)
qed

text \<open>
  Claim C10: in the second variant, a row whose explicit status field is a member of the
  status set is assigned exactly that value, whatever was committed for earlier rows of its
  group; a later row can therefore receive a status of lower rank than an earlier one.
\<close>

theorem explicit_status_is_assigned:
  assumes "i < length rows" and "row_get (rows ! i) STATUS_FIELD = Some s"
    and "set_has statusSet s"
  shows "map_get (inferStatuses2 e rows statusSet) i = Some (Some s)"
proof -
  from row_position [OF assms(1), of e] obtain g k where g: "g \<in> set (groupRows rows)"
    and k: "k < length (snd g)"
    and at: "sort_js (compareEntries e) (snd g) ! k = (rows ! i, i)" by blast
  from k have k': "k < length (sort_js (compareEntries e) (snd g))" by (simp add: length_sort_js)
  from at assms(2) have "row_get (fst (sort_js (compareEntries e) (snd g) ! k)) STATUS_FIELD = Some s"
    by simp
  from writes2_member [OF k' this assms(3)] inferStatuses2_get [OF g k, of e statusSet] at
  show ?thesis by simp
qed

theorem explicit_status_is_assigned_witness:
  "map_get (inferStatuses2 ex_env [ex_complete_row, ex_estimating_row]
              (buildStatusSet canonical_order)) 0 = Some (Some ''Complete'') \<and>
   map_get (inferStatuses2 ex_env [ex_complete_row, ex_estimating_row]
              (buildStatusSet canonical_order)) 1 = Some (Some ''Estimating'') \<and>
   map_get (buildStatusIndex canonical_order) ''Complete'' = Some 13 \<and>
   map_get (buildStatusIndex canonical_order) ''Estimating'' = Some 0"
proof -
  have h1: "(1::nat) < length [ex_complete_row, ex_estimating_row]" by simp
  have h2: "row_get ([ex_complete_row, ex_estimating_row] ! 1) STATUS_FIELD = Some ''Estimating''"
    by code_simp
  have h3: "set_has (buildStatusSet canonical_order) ''Estimating''" by code_simp
  have "map_get (inferStatuses2 ex_env [ex_complete_row, ex_estimating_row]
              (buildStatusSet canonical_order)) 0 = Some (Some ''Complete'')" by code_simp
  moreover have "map_get (buildStatusIndex canonical_order) ''Complete'' = Some 13" by code_simp
  moreover have "map_get (buildStatusIndex canonical_order) ''Estimating'' = Some 0" by code_simp
  ultimately show ?thesis
    using explicit_status_is_assigned [OF h1 h2 h3, of ex_env] by simp
qed

subsection \<open>When the sort keys decide the order\<close>

lemma map_snd_writes:
  "map snd (writes statusOrder statusIndex es st) = vals statusOrder statusIndex (map fst es) st"
  by (induction es arbitrary: st) simp_all

lemma compareEntries_key:
  fixes ck :: "string \<Rightarrow> 'k::linorder"
  assumes "(safeDate e (row_get (fst a) DATE_FIELD) = None) =
           (safeDate e (row_get (fst b) DATE_FIELD) = None)"
    and "(localeCompare e (or_empty (row_get (fst a) DWR_FIELD))
                          (or_empty (row_get (fst b) DWR_FIELD)) \<le> 0) =
         (ck (or_empty (row_get (fst a) DWR_FIELD)) \<le> ck (or_empty (row_get (fst b) DWR_FIELD)))"
    and "rowkey e ck (fst a) \<noteq> rowkey e ck (fst b)"
  shows "(compareEntries e a b \<le> 0) = (rowkey e ck (fst a) \<le> rowkey e ck (fst b))"
proof (cases "safeDate e (row_get (fst a) DATE_FIELD)")
  case None
  with assms(1) have b: "safeDate e (row_get (fst b) DATE_FIELD) = None" by simp
  from None b assms(3)
  have "ck (or_empty (row_get (fst a) DWR_FIELD)) \<noteq> ck (or_empty (row_get (fst b) DWR_FIELD))"
    by (simp add: rowkey_def)
  then have "or_empty (row_get (fst a) DWR_FIELD) \<noteq> or_empty (row_get (fst b) DWR_FIELD)"
    by auto
  with None b assms(2) show ?thesis
    by (simp add: compareEntries_def rowkey_def less_eq_prod_def Let_def)
next
  case (Some ta)
  with assms(1) obtain tb where b: "safeDate e (row_get (fst b) DATE_FIELD) = Some tb"
    by (cases "safeDate e (row_get (fst b) DATE_FIELD)") auto
  show ?thesis
  proof (cases "ta = tb")
    case True
    with Some b assms(3)
    have "ck (or_empty (row_get (fst a) DWR_FIELD)) \<noteq> ck (or_empty (row_get (fst b) DWR_FIELD))"
      by (simp add: rowkey_def)
    then have "or_empty (row_get (fst a) DWR_FIELD) \<noteq> or_empty (row_get (fst b) DWR_FIELD)"
      by auto
    with Some b True assms(2) show ?thesis
      by (simp add: compareEntries_def rowkey_def less_eq_prod_def Let_def)
  next
    case False
    with Some b show ?thesis
      by (auto simp: compareEntries_def rowkey_def less_eq_prod_def Let_def)
  qed
qed

lemma insert_sorted_insort_key:
  fixes f :: "'a \<Rightarrow> 'k::linorder"
  assumes "\<forall>y\<in>set ys. (cmp x y \<le> 0) = (f x \<le> f y)"
  shows "insert_sorted cmp x ys = insort_key f x ys"
  using assms by (induction ys) simp_all

lemma sort_js_sort_key:
  fixes f :: "'a \<Rightarrow> 'k::linorder"
  assumes "distinct xs"
    and "\<forall>x\<in>set xs. \<forall>y\<in>set xs. x \<noteq> y \<longrightarrow> (cmp x y \<le> 0) = (f x \<le> f y)"
  shows "sort_js cmp xs = sort_key f xs"
  using assms
proof (induction xs)
  case Nil
  show ?case by (simp add: sort_js_def)
next
  case (Cons x xs)
  from Cons.prems have ih: "sort_js cmp xs = sort_key f xs"
    by (intro Cons.IH) auto
  have "\<forall>y\<in>set (sort_key f xs). (cmp x y \<le> 0) = (f x \<le> f y)"
    using Cons.prems by auto
  then have "insert_sorted cmp x (sort_key f xs) = insort_key f x (sort_key f xs)"
    by (rule insert_sorted_insort_key)
  with ih show ?case
    by (simp add: sort_js_def sort_key_def)
qed

lemma map_insort_key:
  fixes f :: "'b \<Rightarrow> 'k::linorder"
  shows "map g (insort_key (\<lambda>x. f (g x)) x xs) = insort_key f (g x) (map g xs)"
  by (induction xs) simp_all

lemma map_sort_key:
  fixes f :: "'b \<Rightarrow> 'k::linorder"
  shows "map g (sort_key (\<lambda>x. f (g x)) xs) = sort_key f (map g xs)"
  by (induction xs) (simp_all add: map_insort_key)

lemma map_fst_filter_zip:
  "length ys = length xs \<Longrightarrow> map fst (filter (\<lambda>en. P (fst en)) (zip xs ys)) = filter P xs"
proof (induction xs arbitrary: ys)
  case Nil
  show ?case by simp
next
  case (Cons x xs)
  then obtain y ys' where "ys = y # ys'" by (cases ys) auto
  with Cons show ?case by simp
qed

lemma set_map_set:
  "distinct (map fst G) \<Longrightarrow> set (map_set k v G) = insert (k, v) {g \<in> set G. fst g \<noteq> k}"
  by (induction G) (auto simp: rev_image_eqI)

lemma map_of_None_iff: "(map_of G k = None) = (k \<notin> fst ` set G)"
  by (simp add: map_of_eq_None_iff)

lemma rest_map_set:
  "distinct (map fst G) \<Longrightarrow> {g \<in> set (map_set k v G). fst g \<noteq> k} = {g \<in> set G. fst g \<noteq> k}"
  by (auto simp: set_map_set)

lemma group_step_eq:
  "group_step en G =
     map_set (job_of (fst en)) (old_entries G (job_of (fst en)) @ [en])
       (if map_of G (job_of (fst en)) = None then map_set (job_of (fst en)) [] G else G)"
proof (cases "map_of G (job_of (fst en))")
  case None
  then show ?thesis
    by (simp add: group_step_def map_has_def map_get_def Let_def job_of_def old_entries_def
        map_of_map_set)
next
  case (Some old)
  then show ?thesis
    by (simp add: group_step_def map_has_def map_get_def Let_def job_of_def old_entries_def)
qed

lemma group_step_props:
  assumes "distinct (map fst G)"
  shows "distinct (map fst (group_step en G))"
    and "fst ` set (group_step en G) = insert (job_of (fst en)) (fst ` set G)"
    and "set (group_step en G) =
           insert (job_of (fst en), old_entries G (job_of (fst en)) @ [en])
                  {g \<in> set G. fst g \<noteq> job_of (fst en)}"
proof -
  let ?k = "job_of (fst en)"
  let ?G' = "if map_of G ?k = None then map_set ?k [] G else G"
  have d: "distinct (map fst ?G')" using assms by (simp add: distinct_map_set)
  have rest: "{g \<in> set ?G'. fst g \<noteq> ?k} = {g \<in> set G. fst g \<noteq> ?k}"
    using assms by (simp add: rest_map_set)
  have keys: "insert ?k (fst ` set ?G') = insert ?k (fst ` set G)"
    by (simp add: keys_map_set)
  show "distinct (map fst (group_step en G))"
    unfolding group_step_eq using d by (rule distinct_map_set)
  show "fst ` set (group_step en G) = insert ?k (fst ` set G)"
    unfolding group_step_eq keys_map_set by (rule keys)
  show "set (group_step en G) =
           insert (?k, old_entries G ?k @ [en]) {g \<in> set G. fst g \<noteq> ?k}"
    unfolding group_step_eq set_map_set [OF d] rest ..
qed

lemma fold_group_step_inv:
  "distinct (map fst (fold group_step xs [])) \<and>
   fst ` set (fold group_step xs []) = (\<lambda>en. job_of (fst en)) ` set xs \<and>
   (\<forall>g\<in>set (fold group_step xs []). snd g = filter (\<lambda>en. job_of (fst en) = fst g) xs)"
proof (induction xs rule: rev_induct)
  case Nil
  show ?case by simp
next
  case (snoc x xs)
  let ?G = "fold group_step xs []"
  let ?k = "job_of (fst x)"
  from snoc.IH have d: "distinct (map fst ?G)"
    and keys: "fst ` set ?G = (\<lambda>en. job_of (fst en)) ` set xs"
    and grp: "\<forall>g\<in>set ?G. snd g = filter (\<lambda>en. job_of (fst en) = fst g) xs"
    by simp_all
  note p = group_step_props [OF d, of x]
  have old: "old_entries ?G ?k = filter (\<lambda>en. job_of (fst en) = ?k) xs"
  proof (cases "map_of ?G ?k")
    case None
    then have "?k \<notin> (\<lambda>en. job_of (fst en)) ` set xs" using keys by (simp add: map_of_None_iff)
    then have "\<forall>en\<in>set xs. job_of (fst en) \<noteq> ?k" by (metis imageI)
    then have "filter (\<lambda>en. job_of (fst en) = ?k) xs = []" by (simp add: filter_empty_conv)
    with None show ?thesis by (simp add: old_entries_def)
  next
    case (Some old)
    then have "(?k, old) \<in> set ?G" by (rule map_of_SomeD)
    with grp have "old = filter (\<lambda>en. job_of (fst en) = ?k) xs" by force
    with Some show ?thesis by (simp add: old_entries_def)
  qed
  have "\<forall>g\<in>set (group_step x ?G). snd g = filter (\<lambda>en. job_of (fst en) = fst g) (xs @ [x])"
  proof
    fix g assume "g \<in> set (group_step x ?G)"
    with p(3) have "g = (?k, old_entries ?G ?k @ [x]) \<or> (g \<in> set ?G \<and> fst g \<noteq> ?k)" by auto
    then show "snd g = filter (\<lambda>en. job_of (fst en) = fst g) (xs @ [x])"
    proof
      assume "g = (?k, old_entries ?G ?k @ [x])"
      with old show ?thesis by simp
    next
      assume "g \<in> set ?G \<and> fst g \<noteq> ?k"
      with grp show ?thesis by auto
    qed
  qed
  moreover have "fold group_step (xs @ [x]) [] = group_step x ?G" by simp
  moreover have "fst ` set (group_step x ?G) = (\<lambda>en. job_of (fst en)) ` set (xs @ [x])"
    using p(2) keys by auto
  ultimately show ?case using p(1) by simp
qed

lemma groupRows_group:
  assumes "g \<in> set (groupRows rows)"
  shows "map fst (snd g) = filter (\<lambda>r. job_of r = fst g) rows"
    and "distinct (snd g)"
proof -
  let ?xs = "zip rows [0 ..< length rows]"
  from fold_group_step_inv [of ?xs] assms
  have g: "snd g = filter (\<lambda>en. job_of (fst en) = fst g) ?xs"
    by (simp add: groupRows_def)
  have "map fst (filter (\<lambda>en. job_of (fst en) = fst g) ?xs) = filter (\<lambda>r. job_of r = fst g) rows"
    by (rule map_fst_filter_zip) simp
  with g show "map fst (snd g) = filter (\<lambda>r. job_of r = fst g) rows" by simp
  have "distinct ?xs" by (rule distinct_zipI2) simp
  with g show "distinct (snd g)" by simp
qed

lemma keys_decide_perm:
  fixes ck :: "string \<Rightarrow> 'k::linorder"
  assumes "keys_decide e ck rows" and "mset rows' = mset rows"
  shows "keys_decide e ck rows'"
proof -
  from assms(2) have "set rows' = set rows" by (metis set_mset_mset)
  moreover from assms(2) have "distinct rows' = distinct rows" by (rule mset_eq_imp_distinct_iff)
  ultimately show ?thesis using assms(1) by (simp add: keys_decide_def)
qed

lemma canon_perm:
  fixes ck :: "string \<Rightarrow> 'k::linorder"
  assumes "keys_decide e ck rows" and "mset rows' = mset rows"
  shows "sort_key (rowkey e ck) (filter (\<lambda>r. job_of r = k) rows') =
         sort_key (rowkey e ck) (filter (\<lambda>r. job_of r = k) rows)"
proof (rule sort_key_inj_key_eq)
  show "mset (filter (\<lambda>r. job_of r = k) rows') =
        mset (sort_key (rowkey e ck) (filter (\<lambda>r. job_of r = k) rows))"
    using assms(2) by simp
  from keys_decide_perm [OF assms]
  have sep: "\<forall>r1\<in>set rows'. \<forall>r2\<in>set rows'.
               r1 \<noteq> r2 \<and> job_of r1 = job_of r2 \<longrightarrow> rowkey e ck r1 \<noteq> rowkey e ck r2"
    unfolding keys_decide_def by blast
  show "inj_on (rowkey e ck) (set (filter (\<lambda>r. job_of r = k) rows'))"
  proof (rule inj_onI)
    fix x y
    assume x: "x \<in> set (filter (\<lambda>r. job_of r = k) rows')"
      and y: "y \<in> set (filter (\<lambda>r. job_of r = k) rows')"
      and eq: "rowkey e ck x = rowkey e ck y"
    from x y have "x \<in> set rows'" "y \<in> set rows'" "job_of x = job_of y" by simp_all
    with sep eq show "x = y" by blast
  qed
  show "sorted (map (rowkey e ck) (sort_key (rowkey e ck) (filter (\<lambda>r. job_of r = k) rows)))"
    by simp
qed

lemma sorted_group_rows:
  fixes ck :: "string \<Rightarrow> 'k::linorder"
  assumes kd: "keys_decide e ck rows" and g: "g \<in> set (groupRows rows)"
  shows "map fst (sort_js (compareEntries e) (snd g)) =
         sort_key (rowkey e ck) (filter (\<lambda>r. job_of r = fst g) rows)"
proof -
  note grp = groupRows_group [OF g]
  have mem: "fst a \<in> set rows \<and> job_of (fst a) = fst g" if "a \<in> set (snd g)" for a
  proof -
    from that have "fst a \<in> set (map fst (snd g))" by simp
    then show ?thesis by (simp add: grp(1))
  qed
  have diff: "fst a \<noteq> fst b" if "a \<in> set (snd g)" "b \<in> set (snd g)" "a \<noteq> b" for a b
  proof
    assume eq: "fst a = fst b"
    from group_entry_is_row [OF g that(1)] group_entry_is_row [OF g that(2)]
    have a: "snd a < length rows" "fst a = rows ! snd a"
      and b: "snd b < length rows" "fst b = rows ! snd b" by simp_all
    from kd have "distinct rows" by (simp add: keys_decide_def)
    with a b eq have "snd a = snd b" by (simp add: nth_eq_iff_index_eq)
    with eq have "a = b" by (simp add: prod_eq_iff)
    with that(3) show False by contradiction
  qed
  from kd have sep: "\<forall>r1\<in>set rows. \<forall>r2\<in>set rows.
         r1 \<noteq> r2 \<and> job_of r1 = job_of r2 \<longrightarrow>
           ((safeDate e (row_get r1 DATE_FIELD) = None) =
            (safeDate e (row_get r2 DATE_FIELD) = None)) \<and>
           ((localeCompare e (or_empty (row_get r1 DWR_FIELD))
                             (or_empty (row_get r2 DWR_FIELD)) \<le> 0) =
            (ck (or_empty (row_get r1 DWR_FIELD)) \<le> ck (or_empty (row_get r2 DWR_FIELD)))) \<and>
           rowkey e ck r1 \<noteq> rowkey e ck r2"
    unfolding keys_decide_def by (rule conjunct2)
  have cmp: "\<forall>a\<in>set (snd g). \<forall>b\<in>set (snd g). a \<noteq> b \<longrightarrow>
               (compareEntries e a b \<le> 0) = (rowkey e ck (fst a) \<le> rowkey e ck (fst b))"
  proof (intro ballI impI)
    fix a b assume ab: "a \<in> set (snd g)" "b \<in> set (snd g)" "a \<noteq> b"
    from mem [OF ab(1)] have ma: "fst a \<in> set rows" and ja: "job_of (fst a) = fst g" by simp_all
    from mem [OF ab(2)] have mb: "fst b \<in> set rows" and jb: "job_of (fst b) = fst g" by simp_all
    from diff [OF ab] ja jb have pre: "fst a \<noteq> fst b \<and> job_of (fst a) = job_of (fst b)" by simp
    note c = sep [THEN bspec, OF ma, THEN bspec, OF mb, THEN mp, OF pre]
    show "(compareEntries e a b \<le> 0) = (rowkey e ck (fst a) \<le> rowkey e ck (fst b))"
      by (rule compareEntries_key [OF c [THEN conjunct1] c [THEN conjunct2, THEN conjunct1]
            c [THEN conjunct2, THEN conjunct2]])
  qed
  have "sort_js (compareEntries e) (snd g) = sort_key (\<lambda>a. rowkey e ck (fst a)) (snd g)"
    using grp(2) cmp by (rule sort_js_sort_key)
  then show ?thesis by (simp add: map_sort_key grp(1))
qed

lemma assignment_in_canon:
  fixes ck :: "string \<Rightarrow> 'k::linorder"
  assumes kd: "keys_decide e ck rows" and i: "i < length rows"
  shows "\<exists>k. k < length (sort_key (rowkey e ck) (filter (\<lambda>r. job_of r = job_of (rows ! i)) rows)) \<and>
           sort_key (rowkey e ck) (filter (\<lambda>r. job_of r = job_of (rows ! i)) rows) ! k = rows ! i \<and>
           map_get (inferStatuses e rows statusSet statusOrder statusIndex) i =
             Some (vals statusOrder statusIndex
                     (sort_key (rowkey e ck) (filter (\<lambda>r. job_of r = job_of (rows ! i)) rows))
                     (initial_state statusSet statusIndex) ! k)"
proof -
  from row_position [OF i, of e] obtain g k where g: "g \<in> set (groupRows rows)"
    and k: "k < length (snd g)"
    and at: "sort_js (compareEntries e) (snd g) ! k = (rows ! i, i)" by blast
  define es where "es = sort_js (compareEntries e) (snd g)"
  define C where "C = sort_key (rowkey e ck) (filter (\<lambda>r. job_of r = fst g) rows)"
  define ws where "ws = writes statusOrder statusIndex es (initial_state statusSet statusIndex)"
  have C: "map fst es = C" unfolding es_def C_def by (rule sorted_group_rows [OF kd g])
  from k have k': "k < length es" by (simp add: es_def length_sort_js)
  have len: "length C = length es" using C by (metis length_map)
  have "C ! k = map fst es ! k" by (simp only: C)
  also have "\<dots> = fst (es ! k)" using k' by simp
  also have "\<dots> = rows ! i" using at by (simp add: es_def)
  finally have Ck: "C ! k = rows ! i" .
  from k' len have klen: "k < length C" by simp
  then have "C ! k \<in> set C" by (rule nth_mem)
  with Ck have "rows ! i \<in> set C" by simp
  then have job: "job_of (rows ! i) = fst g" by (simp add: C_def)
  have "snd (ws ! k) = map snd ws ! k" using k' by (simp add: ws_def length_writes)
  also have "map snd ws = vals statusOrder statusIndex (map fst es) (initial_state statusSet statusIndex)"
    unfolding ws_def by (rule map_snd_writes)
  finally have "snd (ws ! k) = vals statusOrder statusIndex C (initial_state statusSet statusIndex) ! k"
    by (simp only: C)
  moreover from inferStatuses_get [OF g k, of e statusSet statusOrder statusIndex] at
  have "map_get (inferStatuses e rows statusSet statusOrder statusIndex) i = Some (snd (ws ! k))"
    by (simp add: ws_def es_def)
  ultimately have "map_get (inferStatuses e rows statusSet statusOrder statusIndex) i =
        Some (vals statusOrder statusIndex C (initial_state statusSet statusIndex) ! k)"
    by simp
  with Ck klen show ?thesis unfolding C_def job by blast
qed

text \<open>
  Claim C9 (permutation invariance), amended. The comparator of the sort ends with the
  original input position, so the claim cannot hold when rows of one job tie on the sort
  keys. It holds when the keys decide the order: the rows are pairwise different, and any
  two rows of the same job either both have a date that parses or both have none, are
  ordered by \<^verbatim>\<open>localeCompare\<close> on \<^verbatim>\<open>dwrNumber\<close> as some collation key \<open>ck\<close> orders them, and
  differ in the pair of date and collation key (\<open>keys_decide\<close>). Then, for every
  permutation \<open>rows'\<close> of the input \<open>rows\<close>, a row receives the same assignment at its
  place \<open>j\<close> in \<open>rows'\<close> as at its place \<open>i\<close> in \<open>rows\<close>.
\<close>

theorem permutation_invariance_when_keys_decide:
  fixes ck :: "string \<Rightarrow> 'k::linorder"
  assumes "keys_decide e ck rows" and "mset rows' = mset rows"
    and "i < length rows" and "j < length rows'" and "rows' ! j = rows ! i"
  shows "map_get (inferStatuses e rows' (buildStatusSet statusOrder) statusOrder
                    (buildStatusIndex statusOrder)) j =
         map_get (inferStatuses e rows (buildStatusSet statusOrder) statusOrder
                    (buildStatusIndex statusOrder)) i"
proof -
  define ss where "ss = buildStatusSet statusOrder"
  define idx where "idx = buildStatusIndex statusOrder"
  define C where "C = sort_key (rowkey e ck) (filter (\<lambda>r. job_of r = job_of (rows ! i)) rows)"
  from assignment_in_canon [OF assms(1,3), of ss statusOrder idx]
  obtain k where k: "k < length C" "C ! k = rows ! i"
    and v: "map_get (inferStatuses e rows ss statusOrder idx) i =
              Some (vals statusOrder idx C (initial_state ss idx) ! k)"
    unfolding C_def by blast
  have C': "sort_key (rowkey e ck) (filter (\<lambda>r. job_of r = job_of (rows' ! j)) rows') = C"
    unfolding C_def assms(5) by (rule canon_perm [OF assms(1,2)])
  from assignment_in_canon [OF keys_decide_perm [OF assms(1,2)] assms(4), of ss statusOrder idx]
  obtain k' where k': "k' < length C" "C ! k' = rows' ! j"
    and v': "map_get (inferStatuses e rows' ss statusOrder idx) j =
              Some (vals statusOrder idx C (initial_state ss idx) ! k')"
    unfolding C' by blast
  from assms(1) have "distinct rows" by (simp add: keys_decide_def)
  then have "distinct C" by (simp add: C_def)
  with k k' assms(5) have "k = k'" using nth_eq_iff_index_eq [of C k k'] by simp
  with v v' show ?thesis by (simp add: ss_def idx_def)
qed

theorem permutation_invariance_when_keys_decide_witness:
  "map_get (inferStatuses ex_env_dates [ex_dated_field_row, ex_dated_pm_row]
              (buildStatusSet canonical_order) canonical_order
              (buildStatusIndex canonical_order)) 0 =
   map_get (inferStatuses ex_env_dates [ex_dated_pm_row, ex_dated_field_row]
              (buildStatusSet canonical_order) canonical_order
              (buildStatusIndex canonical_order)) 1"
proof -
  have h1: "keys_decide ex_env_dates (\<lambda>s. 0::int) [ex_dated_pm_row, ex_dated_field_row]"
    by code_simp
  have h2: "mset [ex_dated_field_row, ex_dated_pm_row] = mset [ex_dated_pm_row, ex_dated_field_row]"
    by simp
  have h3: "1 < length [ex_dated_pm_row, ex_dated_field_row]" by simp
  have h4: "0 < length [ex_dated_field_row, ex_dated_pm_row]" by simp
  have h5: "[ex_dated_field_row, ex_dated_pm_row] ! 0 = [ex_dated_pm_row, ex_dated_field_row] ! 1"
    by simp
  from permutation_invariance_when_keys_decide [OF h1 h2 h3 h4 h5] show ?thesis .
qed

text \<open>
  Claim C9 as stated fails. Two rows of job J-100 without date and \<^verbatim>\<open>dwrNumber\<close> tie on
  both sort keys, so the input position orders them. With the project manager's row first
  the field technician's row is assigned \<^verbatim>\<open>Final Submission Sent\<close>; with the two rows
  swapped the same row is assigned \<^verbatim>\<open>Field Work in Progress\<close>.
\<close>

theorem permutation_invariance_counterexample:
  "mset [ex_field_row, ex_pm_row] = mset [ex_pm_row, ex_field_row] \<and>
   [ex_pm_row, ex_field_row] ! 1 = ex_field_row \<and>
   [ex_field_row, ex_pm_row] ! 0 = ex_field_row \<and>
   map_get (inferStatuses ex_env [ex_pm_row, ex_field_row] (buildStatusSet canonical_order)
              canonical_order (buildStatusIndex canonical_order)) 1 =
     Some (Some ''Final Submission Sent'') \<and>
   map_get (inferStatuses ex_env [ex_field_row, ex_pm_row] (buildStatusSet canonical_order)
              canonical_order (buildStatusIndex canonical_order)) 0 =
     Some (Some ''Field Work in Progress'')"
proof -
  have "map_get (inferStatuses ex_env [ex_pm_row, ex_field_row] (buildStatusSet canonical_order)
              canonical_order (buildStatusIndex canonical_order)) 1 =
     Some (Some ''Final Submission Sent'')" by code_simp
  moreover have "map_get (inferStatuses ex_env [ex_field_row, ex_pm_row]
              (buildStatusSet canonical_order)
              canonical_order (buildStatusIndex canonical_order)) 0 =
     Some (Some ''Field Work in Progress'')" by code_simp
  ultimately show ?thesis by simp
qed

end
